theory Spec2Isabelle
  imports Main "HOL-Library.Multiset"
begin

section \<open>Rate limiter\<close>

text \<open>
  The rate-limit table is a \<open>Map\<close> from keys to mutable entries.  Timestamps are
  the integer milliseconds of \<open>Date.now()\<close>.  An entry object is shared between the
  table and the local \<open>entries\<close> array of \<open>checkRateLimitKeys\<close>, so every mutation
  of an entry is written back to the table under its key.
\<close>

record rate_entry =
  short :: "int list"
  medium :: "int list"
  daily :: "int list"
  burstStrikes :: int
  blockedUntil :: int

type_synonym rate_limits = "string \<Rightarrow> rate_entry option"

definition RATE_SHORT_MAX :: nat where "RATE_SHORT_MAX = 5"
definition RATE_SHORT_WINDOW :: int where "RATE_SHORT_WINDOW = 10000"
definition RATE_MEDIUM_MAX :: nat where "RATE_MEDIUM_MAX = 60"
definition RATE_MEDIUM_WINDOW :: int where "RATE_MEDIUM_WINDOW = 600000"
definition RATE_DAILY_MAX :: nat where "RATE_DAILY_MAX = 300"
definition RATE_DAILY_WINDOW :: int where "RATE_DAILY_WINDOW = 86400000"
definition BURST_COOLDOWN :: int where "BURST_COOLDOWN = 60000"
definition BURST_STRIKE_THRESHOLD :: int where "BURST_STRIKE_THRESHOLD = 3"

definition emptyRateEntry :: rate_entry where
  "emptyRateEntry = \<lparr>short = [], medium = [], daily = [], burstStrikes = 0, blockedUntil = 0\<rparr>"

text \<open>\<open>getRateEntry\<close> creates the entry when the key is new and returns the entry of the key.\<close>

definition getRateEntry :: "rate_limits \<Rightarrow> string \<Rightarrow> rate_limits \<times> rate_entry" where
  "getRateEntry rl key =
     (case rl key of
        None \<Rightarrow> (rl(key \<mapsto> emptyRateEntry), emptyRateEntry)
      | Some e \<Rightarrow> (rl, e))"

definition pruneEntry :: "rate_entry \<Rightarrow> int \<Rightarrow> rate_entry" where
  "pruneEntry entry now =
     entry\<lparr>short := filter (\<lambda>t. now - t < RATE_SHORT_WINDOW) (short entry),
           medium := filter (\<lambda>t. now - t < RATE_MEDIUM_WINDOW) (medium entry),
           daily := filter (\<lambda>t. now - t < RATE_DAILY_WINDOW) (daily entry)\<rparr>"

text \<open>The array \<open>entries = keys.map(getRateEntry)\<close>: every key gets its entry first.\<close>

fun createEntries :: "rate_limits \<Rightarrow> string list \<Rightarrow> rate_limits" where
  "createEntries rl [] = rl"
| "createEntries rl (key # keys) = createEntries (fst (getRateEntry rl key)) keys"

text \<open>
  The body of the first loop of \<open>checkRateLimitKeys\<close> for one entry: the entry as the body
  leaves it, and \<open>False\<close> for the early \<open>return false\<close>.
\<close>

definition checkEntry :: "rate_entry \<Rightarrow> int \<Rightarrow> rate_entry \<times> bool" where
  "checkEntry entry0 now =
     (let entry = pruneEntry entry0 now in
      if blockedUntil entry > now then (entry, False)
      else if length (short entry) \<ge> RATE_SHORT_MAX then
        (let struck = entry\<lparr>burstStrikes := burstStrikes entry + 1\<rparr> in
         if burstStrikes struck \<ge> BURST_STRIKE_THRESHOLD
         then (struck\<lparr>blockedUntil := now + BURST_COOLDOWN, burstStrikes := 0\<rparr>, False)
         else (struck, False))
      else if length (medium entry) \<ge> RATE_MEDIUM_MAX then (entry, False)
      else if length (daily entry) \<ge> RATE_DAILY_MAX then (entry, False)
      else (entry, True))"

text \<open>The first loop, over the keys in order; it stops at the first entry that fails.\<close>

fun checkLoop :: "rate_limits \<Rightarrow> string list \<Rightarrow> int \<Rightarrow> rate_limits \<times> bool" where
  "checkLoop rl [] now = (rl, True)"
| "checkLoop rl (key # keys) now =
     (case checkEntry (snd (getRateEntry rl key)) now of
        (entry, False) \<Rightarrow> (rl(key \<mapsto> entry), False)
      | (entry, True) \<Rightarrow> checkLoop (rl(key \<mapsto> entry)) keys now)"

text \<open>The second loop: every entry records the event.\<close>

definition pushNow :: "rate_entry \<Rightarrow> int \<Rightarrow> rate_entry" where
  "pushNow entry now =
     entry\<lparr>short := short entry @ [now], medium := medium entry @ [now], daily := daily entry @ [now]\<rparr>"

fun pushLoop :: "rate_limits \<Rightarrow> string list \<Rightarrow> int \<Rightarrow> rate_limits" where
  "pushLoop rl [] now = rl"
| "pushLoop rl (key # keys) now =
     pushLoop (rl(key \<mapsto> pushNow (snd (getRateEntry rl key)) now)) keys now"

definition checkRateLimitKeys :: "rate_limits \<Rightarrow> string list \<Rightarrow> int \<Rightarrow> bool \<times> rate_limits" where
  "checkRateLimitKeys rl keys now =
     (case checkLoop (createEntries rl keys) keys now of
        (rl', False) \<Rightarrow> (False, rl')
      | (rl', True) \<Rightarrow> (True, pushLoop rl' keys now))"

text \<open>
  \<open>maintenanceTick\<close> on the rate-limit table: it prunes every entry and deletes the ones
  that are empty and not blocked.  The entries are independent, so the iteration order does
  not matter.  Its other half, the purge of the session table, is
  \<open>purgeExpiredTokenSessions\<close>.
\<close>

definition maintenanceTick :: "rate_limits \<Rightarrow> int \<Rightarrow> rate_limits" where
  "maintenanceTick rl now =
     (\<lambda>key. case rl key of
        None \<Rightarrow> None
      | Some e \<Rightarrow>
          (let entry = pruneEntry e now in
           if short entry = [] \<and> medium entry = [] \<and> daily entry = [] \<and> blockedUntil entry < now
           then None else Some entry))"

section \<open>Rate limiter: vocabulary of the properties\<close>

text \<open>
  The entry of a key as \<open>getRateEntry\<close> returns it, the condition under which a key passes a
  check, and runs of checks and maintenance ticks over the table.
\<close>

definition entryOf :: "rate_limits \<Rightarrow> string \<Rightarrow> rate_entry" where
  "entryOf rl key = snd (getRateEntry rl key)"

definition keyPasses :: "rate_limits \<Rightarrow> string \<Rightarrow> int \<Rightarrow> bool" where
  "keyPasses rl key now =
     (let entry = pruneEntry (entryOf rl key) now in
      \<not> blockedUntil entry > now \<and> length (short entry) < RATE_SHORT_MAX
      \<and> length (medium entry) < RATE_MEDIUM_MAX \<and> length (daily entry) < RATE_DAILY_MAX)"

definition pushTimes :: "rate_entry \<Rightarrow> nat \<Rightarrow> int \<Rightarrow> rate_entry" where
  "pushTimes entry n now =
     entry\<lparr>short := short entry @ replicate n now, medium := medium entry @ replicate n now,
           daily := daily entry @ replicate n now\<rparr>"

definition windows :: "rate_entry \<Rightarrow> int list \<times> int list \<times> int list" where
  "windows entry = (short entry, medium entry, daily entry)"

fun runChecks :: "rate_limits \<Rightarrow> string \<Rightarrow> int list \<Rightarrow> bool list \<times> rate_limits" where
  "runChecks rl key [] = ([], rl)"
| "runChecks rl key (now # ts) =
     (case checkRateLimitKeys rl [key] now of
        (ok, rl') \<Rightarrow> (case runChecks rl' key ts of (oks, rl'') \<Rightarrow> (ok # oks, rl'')))"

definition acceptedTimes :: "int list \<Rightarrow> bool list \<Rightarrow> int list" where
  "acceptedTimes ts oks = map fst (filter snd (zip ts oks))"

text \<open>
  One single-key check seen from the entry alone, and a run of them; they mirror
  \<open>checkRateLimitKeys rl [key]\<close> and \<open>runChecks\<close> and are used in the proofs only.
\<close>

definition checkOne :: "rate_entry \<Rightarrow> int \<Rightarrow> bool \<times> rate_entry" where
  "checkOne e now =
     (case checkEntry e now of (e', True) \<Rightarrow> (True, pushNow e' now) | (e', False) \<Rightarrow> (False, e'))"

fun runOne :: "rate_entry \<Rightarrow> int list \<Rightarrow> bool list \<times> rate_entry" where
  "runOne e [] = ([], e)"
| "runOne e (now # ts) =
     (case checkOne e now of (ok, e') \<Rightarrow> (case runOne e' ts of (oks, e'') \<Rightarrow> (ok # oks, e'')))"

text \<open>A check fails at an entry because its short window is at capacity.\<close>

definition shortRejection :: "rate_entry \<Rightarrow> int \<Rightarrow> bool" where
  "shortRejection e now =
     (let entry = pruneEntry e now in
      \<not> blockedUntil entry > now \<and> length (short entry) \<ge> RATE_SHORT_MAX)"

definition firstFailing :: "rate_limits \<Rightarrow> string list \<Rightarrow> int \<Rightarrow> string option" where
  "firstFailing rl keys now = find (\<lambda>k. \<not> keyPasses rl k now) keys"

definition rejectedByShort :: "rate_limits \<Rightarrow> string list \<Rightarrow> string \<Rightarrow> int \<Rightarrow> bool" where
  "rejectedByShort rl keys key now \<longleftrightarrow>
     firstFailing rl keys now = Some key \<and> shortRejection (entryOf rl key) now"

text \<open>Checks and maintenance ticks, in the order they happen.\<close>

datatype rate_event = Check "string list" int | Tick int

fun eventTime :: "rate_event \<Rightarrow> int" where
  "eventTime (Check keys now) = now"
| "eventTime (Tick now) = now"

fun runEvents :: "rate_limits \<Rightarrow> rate_event list \<Rightarrow> (string list \<times> bool) list \<times> rate_limits" where
  "runEvents rl [] = ([], rl)"
| "runEvents rl (Check keys now # evs) =
     (case checkRateLimitKeys rl keys now of
        (ok, rl') \<Rightarrow> (case runEvents rl' evs of (res, rl'') \<Rightarrow> ((keys, ok) # res, rl'')))"
| "runEvents rl (Tick now # evs) = runEvents (maintenanceTick rl now) evs"

text \<open>
  A run of events that leaves the strikes of \<open>key\<close> alone: every check of the run succeeds,
  and after every maintenance tick of the run the key still has its entry.
\<close>

fun quietRun :: "rate_limits \<Rightarrow> string \<Rightarrow> rate_event list \<Rightarrow> bool" where
  "quietRun rl key [] = True"
| "quietRun rl key (Check keys now # evs) =
     (fst (checkRateLimitKeys rl keys now) \<and> quietRun (snd (checkRateLimitKeys rl keys now)) key evs)"
| "quietRun rl key (Tick now # evs) =
     (maintenanceTick rl now key \<noteq> None \<and> quietRun (maintenanceTick rl now) key evs)"

text \<open>An entry whose short window is full at times shortly after \<open>4\<close>, for the examples.\<close>

definition fullShort :: "int \<Rightarrow> int \<Rightarrow> rate_entry" where
  "fullShort strikes until =
     \<lparr>short = [0, 1, 2, 3, 4], medium = [0, 1, 2, 3, 4], daily = [0, 1, 2, 3, 4],
      burstStrikes = strikes, blockedUntil = until\<rparr>"

section \<open>Strings\<close>

text \<open>
  A string is the list of the bytes of its UTF-8 encoding.  The JavaScript string methods
  the program uses are written out on them; case mapping is the ASCII one.
\<close>

definition lowerChar :: "char \<Rightarrow> char" where
  "lowerChar c =
     (if of_char c \<ge> (65::nat) \<and> of_char c \<le> (90::nat) then char_of (of_char c + (32::nat)) else c)"

definition toLowerCase :: "string \<Rightarrow> string" where
  "toLowerCase s = map lowerChar s"

definition startsWith :: "string \<Rightarrow> string \<Rightarrow> bool" where
  "startsWith s p = (take (length p) s = p)"

fun includesStr :: "string \<Rightarrow> string \<Rightarrow> bool" where
  "includesStr [] needle = (needle = [])"
| "includesStr (c # cs) needle = (startsWith (c # cs) needle \<or> includesStr cs needle)"

text \<open>
  \<open>trim\<close> removes white space and line terminators from both ends: the code points
  \<open>U+0009\<close> to \<open>U+000D\<close> and \<open>U+0020\<close> (one byte each), \<open>U+00A0\<close> (two bytes), and
  \<open>U+1680\<close>, \<open>U+2000\<close> to \<open>U+200A\<close>, \<open>U+2028\<close>, \<open>U+2029\<close>, \<open>U+202F\<close>, \<open>U+205F\<close>,
  \<open>U+3000\<close> and \<open>U+FEFF\<close> (three bytes each).
\<close>

definition isSpace1 :: "char \<Rightarrow> bool" where
  "isSpace1 a = (of_char a \<in> {9, 10, 11, 12, 13, 32 :: nat})"

definition isSpace2 :: "char \<Rightarrow> char \<Rightarrow> bool" where
  "isSpace2 a b = (of_char a = (194::nat) \<and> of_char b = (160::nat))"

definition isSpace3 :: "char \<Rightarrow> char \<Rightarrow> char \<Rightarrow> bool" where
  "isSpace3 a b c =
     ((of_char a = (225::nat) \<and> of_char b = (154::nat) \<and> of_char c = (128::nat))
      \<or> (of_char a = (226::nat) \<and> of_char b = (128::nat)
          \<and> ((128::nat) \<le> of_char c \<and> of_char c \<le> (138::nat)
              \<or> of_char c \<in> {168, 169, 175 :: nat}))
      \<or> (of_char a = (226::nat) \<and> of_char b = (129::nat) \<and> of_char c = (159::nat))
      \<or> (of_char a = (227::nat) \<and> of_char b = (128::nat) \<and> of_char c = (128::nat))
      \<or> (of_char a = (239::nat) \<and> of_char b = (187::nat) \<and> of_char c = (191::nat)))"

fun trimStart :: "string \<Rightarrow> string" where
  "trimStart (a # b # c # s) =
     (if isSpace1 a then trimStart (b # c # s)
      else if isSpace2 a b then trimStart (c # s)
      else if isSpace3 a b c then trimStart s
      else a # b # c # s)"
| "trimStart [a, b] =
     (if isSpace1 a then trimStart [b] else if isSpace2 a b then [] else [a, b])"
| "trimStart [a] = (if isSpace1 a then [] else [a])"
| "trimStart [] = []"

text \<open>The same from the end, on the reversed string.\<close>

fun trimEndReversed :: "string \<Rightarrow> string" where
  "trimEndReversed (c # b # a # s) =
     (if isSpace1 c then trimEndReversed (b # a # s)
      else if isSpace2 b c then trimEndReversed (a # s)
      else if isSpace3 a b c then trimEndReversed s
      else c # b # a # s)"
| "trimEndReversed [c, b] =
     (if isSpace1 c then trimEndReversed [b] else if isSpace2 b c then [] else [c, b])"
| "trimEndReversed [c] = (if isSpace1 c then [] else [c])"
| "trimEndReversed [] = []"

definition trimEnd :: "string \<Rightarrow> string" where
  "trimEnd s = rev (trimEndReversed (rev s))"

definition trim :: "string \<Rightarrow> string" where
  "trim s = trimEnd (trimStart s)"

text \<open>
  \<open>s.length\<close> counts UTF-16 code units: one for every code point, and one more for a code
  point beyond \<open>U+FFFF\<close>, whose encoding begins with a byte from \<open>240\<close> on.  The bytes \<open>128\<close>
  to \<open>191\<close> continue a code point.
\<close>

definition jsLength :: "string \<Rightarrow> nat" where
  "jsLength s =
     length (filter (\<lambda>c. \<not> ((128::nat) \<le> of_char c \<and> of_char c < (192::nat))) s)
     + length (filter (\<lambda>c. (240::nat) \<le> of_char c) s)"

text \<open>
  A line terminator occurs in the string: \<open>U+000A\<close>, \<open>U+000D\<close>, \<open>U+2028\<close> or \<open>U+2029\<close>.  The
  dot of a regular expression matches every character but these.
\<close>

fun hasLineTerminator :: "string \<Rightarrow> bool" where
  "hasLineTerminator [] = False"
| "hasLineTerminator (c # cs) =
     (of_char c = (10::nat) \<or> of_char c = (13::nat)
      \<or> (of_char c = (226::nat) \<and>
          (case cs of
             b # d # rest \<Rightarrow> of_char b = (128::nat) \<and> (of_char d = (168::nat) \<or> of_char d = (169::nat))
           | _ \<Rightarrow> False))
      \<or> hasLineTerminator cs)"

text \<open>The decimal digits of a number, as a template literal prints it.\<close>

definition digitChar :: "nat \<Rightarrow> char" where
  "digitChar d = ''0123456789'' ! d"

fun showNat :: "nat \<Rightarrow> string" where
  "showNat n =
     (if n < 10 then [digitChar n]
      else showNat (n div 10) @ [digitChar (n mod 10)])"

declare showNat.simps [simp del]

text \<open>A value counts as true in a condition: a string when it is present and not empty.\<close>

fun truthy :: "string option \<Rightarrow> bool" where
  "truthy None = False"
| "truthy (Some s) = (s \<noteq> [])"

text \<open>\<open>a || b\<close> on strings that may be absent.\<close>

fun orElse :: "string option \<Rightarrow> string \<Rightarrow> string" where
  "orElse None d = d"
| "orElse (Some s) d = (if s = [] then d else s)"

text \<open>\<open>x || null\<close>: an empty string becomes absent.\<close>

fun orNull :: "string option \<Rightarrow> string option" where
  "orNull None = None"
| "orNull (Some s) = (if s = [] then None else Some s)"

section \<open>Storage\<close>

text \<open>
  The tables of \<open>db.ts\<close> with the prepared statements the claims reach.  A table is the list
  of its rows in rowid order, which is the order of insertion; the token sessions, looked up
  by their primary key only, are a map from \<open>jti\<close>.  \<open>CURRENT_TIMESTAMP\<close> is passed in as
  the clock reading \<open>now\<close>, in whole seconds.  Where two tables or a table and the token
  claims name a column alike, the field of the record carries a prefix: \<open>vid\<close>, \<open>vname\<close>,
  \<open>vsite\<close>, \<open>vemail\<close> for the visitor's \<open>id\<close>, \<open>name\<close>, \<open>site\<close>, \<open>email\<close>; \<open>msg_id\<close> and
  \<open>mtype\<close> for the message's \<open>id\<close> and \<open>type\<close>; \<open>ts_sub\<close>, \<open>ts_site\<close> for the session's \<open>sub\<close>
  and \<open>site\<close>.
\<close>

datatype VisitorAuthType = authenticated_type | anonymous_type

record visitor_record =
  vid :: string
  vname :: "string option"
  vsite :: "string option"
  vemail :: "string option"
  auth_type :: VisitorAuthType
  telegram_topic_id :: "int option"
  v_created_at :: int
  v_last_seen :: int

definition getVisitor :: "visitor_record list \<Rightarrow> string \<Rightarrow> visitor_record option" where
  "getVisitor vs visitorId = find (\<lambda>v. vid v = visitorId) vs"

fun coalesce :: "'a option \<Rightarrow> 'a option \<Rightarrow> 'a option" where
  "coalesce None old = old"
| "coalesce (Some x) old = Some x"

text \<open>\<open>INSERT ... ON CONFLICT(id) DO UPDATE\<close> with the \<open>COALESCE\<close> of each column.\<close>

definition upsertVisitor ::
  "visitor_record list \<Rightarrow> string \<Rightarrow> string option \<Rightarrow> string option \<Rightarrow> string option
   \<Rightarrow> VisitorAuthType \<Rightarrow> int \<Rightarrow> visitor_record list" where
  "upsertVisitor vs visitorId nm site em authType now =
     (case getVisitor vs visitorId of
        None \<Rightarrow>
          vs @ [\<lparr>vid = visitorId, vname = nm, vsite = site, vemail = em, auth_type = authType,
                  telegram_topic_id = None, v_created_at = now, v_last_seen = now\<rparr>]
      | Some _ \<Rightarrow>
          map (\<lambda>v. if vid v = visitorId
                   then v\<lparr>v_last_seen := now, vsite := coalesce site (vsite v),
                          vname := coalesce nm (vname v), vemail := coalesce em (vemail v),
                          auth_type := authType\<rparr>
                   else v) vs)"

definition setTopicId :: "visitor_record list \<Rightarrow> int option \<Rightarrow> string \<Rightarrow> visitor_record list" where
  "setTopicId vs topicId visitorId =
     map (\<lambda>v. if vid v = visitorId then v\<lparr>telegram_topic_id := topicId\<rparr> else v) vs"

definition getVisitorCount :: "visitor_record list \<Rightarrow> nat" where
  "getVisitorCount vs = length vs"

datatype sender_kind = visitor_sender | agent_sender

datatype message_kind = text_kind | image_kind | file_kind

record chat_message =
  msg_id :: int
  visitor_id :: string
  sender :: sender_kind
  content :: string
  mtype :: message_kind
  file_url :: "string option"
  created_at :: int

text \<open>
  \<open>INTEGER PRIMARY KEY AUTOINCREMENT\<close>: the new id is one more than the largest id of the
  table (no statement deletes a message).
\<close>

definition nextMessageId :: "chat_message list \<Rightarrow> int" where
  "nextMessageId ms = foldr max (map msg_id ms) 0 + 1"

definition addMessage ::
  "chat_message list \<Rightarrow> string \<Rightarrow> sender_kind \<Rightarrow> string \<Rightarrow> message_kind \<Rightarrow> string option \<Rightarrow> int
   \<Rightarrow> chat_message list \<times> int" where
  "addMessage ms visitorId sndr cont kind fileUrl now =
     (ms @ [\<lparr>msg_id = nextMessageId ms, visitor_id = visitorId, sender = sndr, content = cont,
              mtype = kind, file_url = fileUrl, created_at = now\<rparr>],
      nextMessageId ms)"

text \<open>
  \<open>SELECT * FROM messages WHERE visitor_id = ? ORDER BY created_at ASC\<close>.  SQL leaves the
  order of rows with equal \<open>created_at\<close> open; the model takes the stable sort of the table
  scan, which keeps such rows in rowid order.
\<close>

definition getHistory :: "chat_message list \<Rightarrow> string \<Rightarrow> chat_message list" where
  "getHistory ms visitorId = sort_key created_at (filter (\<lambda>m. visitor_id m = visitorId) ms)"

record token_session =
  ts_sub :: string
  ts_site :: "string option"
  origin_host :: "string option"
  expires_at :: int
  revoked_at :: "int option"
  ts_last_seen :: int

type_synonym token_sessions = "string \<Rightarrow> token_session option"

definition getTokenSession :: "token_sessions \<Rightarrow> string \<Rightarrow> token_session option" where
  "getTokenSession tbl jti = tbl jti"

definition insertTokenSession ::
  "token_sessions \<Rightarrow> string \<Rightarrow> string \<Rightarrow> string \<Rightarrow> string \<Rightarrow> int \<Rightarrow> int \<Rightarrow> token_sessions" where
  "insertTokenSession tbl jti sub site originHost expiry now =
     tbl(jti \<mapsto> \<lparr>ts_sub = sub, ts_site = Some site, origin_host = Some originHost,
                  expires_at = expiry, revoked_at = None, ts_last_seen = now\<rparr>)"

definition touchTokenSession :: "token_sessions \<Rightarrow> string \<Rightarrow> int \<Rightarrow> token_sessions" where
  "touchTokenSession tbl jti now =
     (case tbl jti of None \<Rightarrow> tbl | Some r \<Rightarrow> tbl(jti \<mapsto> r\<lparr>ts_last_seen := now\<rparr>))"

definition revokeTokenSession :: "token_sessions \<Rightarrow> string \<Rightarrow> int \<Rightarrow> token_sessions" where
  "revokeTokenSession tbl jti now =
     (case tbl jti of
        None \<Rightarrow> tbl
      | Some r \<Rightarrow> tbl(jti \<mapsto> r\<lparr>revoked_at := Some now, ts_last_seen := now\<rparr>))"

definition purgeExpiredTokenSessions :: "token_sessions \<Rightarrow> int \<Rightarrow> token_sessions" where
  "purgeExpiredTokenSessions tbl now =
     (\<lambda>jti. case tbl jti of
        None \<Rightarrow> None
      | Some r \<Rightarrow> if expires_at r < now then None else Some r)"

datatype SupportPresenceState = online | offline

text \<open>The settings row \<open>support_presence_state\<close>, absent until it is first written.\<close>

definition getSupportPresenceState :: "string option \<Rightarrow> SupportPresenceState" where
  "getSupportPresenceState row =
     (case row of
        None \<Rightarrow> online
      | Some v \<Rightarrow> if toLowerCase (trim v) = ''offline'' then offline else online)"

section \<open>Process state\<close>

text \<open>
  The tables, the process-local registries of the server and the module state of the
  Telegram bridge, in one record that every operation takes and returns.  \<open>botReady\<close> says
  that both \<open>bot\<close> and \<open>groupId\<close> are set.  \<open>botCalls\<close> lists the calls made to the
  remote platform and \<open>errorLog\<close> the lines of \<open>console.error\<close>, oldest first.
\<close>

datatype bot_call =
    CreateForumTopic string
  | SendMessage int string
  | SendPhoto int string "string option"
  | SendDocument int string
  | SendChatAction int

text \<open>
  A thrown value: \<open>null\<close> or \<open>undefined\<close>, another value that is not an object, or an object
  and its \<open>message\<close> when that is a string.  Reading \<open>.message\<close> of the first throws a
  \<open>TypeError\<close>; of the second it gives \<open>undefined\<close>.
\<close>

datatype thrown = Nullish | NotAnObject | ErrorObject "string option"

datatype log_entry =
    ErrorCreatingTopic thrown
  | ErrorSendingToTopic thrown
  | ErrorSendingToRecreatedTopic thrown
  | WsError

record state =
  visitors :: "visitor_record list"
  messages :: "chat_message list"
  tokenSessions :: token_sessions
  presenceSetting :: "string option"
  rateLimits :: rate_limits
  clients :: "string \<Rightarrow> nat list option"
  openSockets :: "nat set"
  typingThrottle :: "string \<Rightarrow> int option"
  botReady :: bool
  botCalls :: "bot_call list"
  errorLog :: "log_entry list"

section \<open>Topic bridge\<close>

text \<open>
  The remote platform and the file system are outside the program.  The platform answers a
  call as a function of the calls made before it and of the call itself; the file system
  says where a public file lies and whether it exists.
\<close>

datatype create_reply = TopicCreated int | NoThreadId | CreateFailed thrown

datatype send_reply = Sent | SendFailed thrown

record platform =
  createForumTopic :: "bot_call list \<Rightarrow> string \<Rightarrow> create_reply"
  sendReply :: "bot_call list \<Rightarrow> bot_call \<Rightarrow> send_reply"
  joinPublic :: "string \<Rightarrow> string"
  publicBase :: string
  existsSync :: "string \<Rightarrow> bool"

definition resolvePublicFilePath :: "platform \<Rightarrow> string option \<Rightarrow> string option" where
  "resolvePublicFilePath env fileUrl =
     (case fileUrl of
        None \<Rightarrow> None
      | Some url \<Rightarrow>
          if url = [] then None
          else
            (let relative = dropWhile (\<lambda>c. c = CHR ''/'') url in
             if includesStr relative ''..'' then None
             else
               (let normalizedPath = joinPublic env relative in
                if \<not> startsWith normalizedPath (publicBase env) then None
                else Some normalizedPath)))"

definition requireMediaFilePath :: "platform \<Rightarrow> string \<Rightarrow> thrown + string" where
  "requireMediaFilePath env fileUrl =
     (case resolvePublicFilePath env (Some fileUrl) of
        None \<Rightarrow> Inl (ErrorObject (Some ''Invalid media path''))
      | Some filePath \<Rightarrow>
          if \<not> existsSync env filePath then Inl (ErrorObject (Some ''Media file not found on disk''))
          else Inr filePath)"

fun isMissingThreadError :: "thrown \<Rightarrow> bool" where
  "isMissingThreadError Nullish = False"
| "isMissingThreadError NotAnObject = False"
| "isMissingThreadError (ErrorObject None) = False"
| "isMissingThreadError (ErrorObject (Some msg)) = includesStr (toLowerCase msg) ''message thread not found''"

definition clearVisitorTopic :: "state \<Rightarrow> string \<Rightarrow> state" where
  "clearVisitorTopic st visitorId = st\<lparr>visitors := setTopicId (visitors st) None visitorId\<rparr>"

text \<open>A cached thread id counts when it is present and not \<open>0\<close>.\<close>

fun truthyId :: "int option \<Rightarrow> bool" where
  "truthyId None = False"
| "truthyId (Some t) = (t \<noteq> 0)"

text \<open>The name of a new topic, from the visitor row (if there is one) and the visitor count.\<close>

definition topicName :: "visitor_record option \<Rightarrow> nat \<Rightarrow> string \<Rightarrow> string" where
  "topicName visitor visitorCount siteName =
     (let isAnon = (case visitor of None \<Rightarrow> False | Some v \<Rightarrow> auth_type v = anonymous_type);
          prefix = (if isAnon then ''[Anon] '' else '''');
          nm = (case visitor of None \<Rightarrow> None | Some v \<Rightarrow> vname v);
          em = (case visitor of None \<Rightarrow> None | Some v \<Rightarrow> vemail v);
          site = (if siteName = [] then ''unknown'' else siteName)
      in
        if truthy nm \<and> truthy em then prefix @ the nm @ '' ('' @ the em @ '') from '' @ site
        else if truthy em then prefix @ the em @ '' from '' @ site
        else if truthy nm then prefix @ the nm @ '' from '' @ site
        else prefix @ ''Visitor #'' @ showNat visitorCount @ '' from '' @ site)"

text \<open>
  How an \<open>async\<close> function ends: it returns a value, or its \<open>catch\<close> block throws the
  \<open>TypeError\<close> of reading \<open>.message\<close> of \<open>null\<close> or \<open>undefined\<close> and the promise rejects.
\<close>

datatype 'a completion = Returns 'a | RejectsTypeError

definition createTopicForVisitor ::
  "platform \<Rightarrow> state \<Rightarrow> string \<Rightarrow> string \<Rightarrow> int option completion \<times> state" where
  "createTopicForVisitor env st visitorId siteName =
     (if \<not> botReady st then (Returns None, st)
      else
        (let visitor = getVisitor (visitors st) visitorId;
             cached = (case visitor of None \<Rightarrow> None | Some v \<Rightarrow> telegram_topic_id v)
         in
           if truthyId cached then (Returns cached, st)
           else
             (let title = topicName visitor (getVisitorCount (visitors st)) siteName;
                  reply = createForumTopic env (botCalls st) title;
                  called = st\<lparr>botCalls := botCalls st @ [CreateForumTopic title]\<rparr>
              in
                case reply of
                  TopicCreated topicId \<Rightarrow>
                    (Returns (Some topicId),
                     called\<lparr>visitors := setTopicId (visitors called) (Some topicId) visitorId\<rparr>)
                | NoThreadId \<Rightarrow> (Returns None, called)
                | CreateFailed err \<Rightarrow>
                    if err = Nullish then (RejectsTypeError, called)
                    else (Returns None, called\<lparr>errorLog := errorLog called @ [ErrorCreatingTopic err]\<rparr>))))"

text \<open>
  What \<open>sendToTopicId\<close> asks of the platform for a piece of content: the call, or the error
  thrown by \<open>requireMediaFilePath\<close> before any call is made.
\<close>

definition outboundCall ::
  "platform \<Rightarrow> string \<Rightarrow> message_kind \<Rightarrow> string option \<Rightarrow> int \<Rightarrow> thrown + bot_call" where
  "outboundCall env cont kind fileUrl topicId =
     (if kind = image_kind \<and> truthy fileUrl then
        (case requireMediaFilePath env (the fileUrl) of
           Inl err \<Rightarrow> Inl err
         | Inr filePath \<Rightarrow>
             Inr (SendPhoto topicId filePath (if Some cont \<noteq> fileUrl then Some cont else None)))
      else if kind = file_kind \<and> truthy fileUrl then
        (case requireMediaFilePath env (the fileUrl) of
           Inl err \<Rightarrow> Inl err
         | Inr filePath \<Rightarrow> Inr (SendDocument topicId filePath))
      else Inr (SendMessage topicId cont))"

text \<open>\<open>sendToTopicId\<close>: the error it throws, if any, and the state after it.\<close>

definition sendToTopicId ::
  "platform \<Rightarrow> state \<Rightarrow> string \<Rightarrow> message_kind \<Rightarrow> string option \<Rightarrow> int \<Rightarrow> thrown option \<times> state" where
  "sendToTopicId env st cont kind fileUrl topicId =
     (if \<not> botReady st then (None, st)
      else
        (case outboundCall env cont kind fileUrl topicId of
           Inl err \<Rightarrow> (Some err, st)
         | Inr call \<Rightarrow>
             (case sendReply env (botCalls st) call of
                Sent \<Rightarrow> (None, st\<lparr>botCalls := botCalls st @ [call]\<rparr>)
              | SendFailed err \<Rightarrow> (Some err, st\<lparr>botCalls := botCalls st @ [call]\<rparr>))))"

text \<open>
  The \<open>try\<close> block of \<open>sendToTopic\<close> with its \<open>catch\<close>: one send to the topic, and the
  recovery when the platform reports that the thread is missing.  An error thrown inside
  the \<open>catch\<close> block, by \<open>createTopicForVisitor\<close> or by reading \<open>.message\<close>, leaves
  \<open>sendToTopic\<close>.
\<close>

definition sendWithRecovery ::
  "platform \<Rightarrow> state \<Rightarrow> string \<Rightarrow> string \<Rightarrow> message_kind \<Rightarrow> string \<Rightarrow> string option \<Rightarrow> int
   \<Rightarrow> unit completion \<times> state" where
  "sendWithRecovery env st visitorId cont kind siteName fileUrl topicId =
     (case sendToTopicId env st cont kind fileUrl topicId of
        (None, st2) \<Rightarrow> (Returns (), st2)
      | (Some err, st2) \<Rightarrow>
          (let logged = (\<lambda>s. if err = Nullish then (RejectsTypeError, s)
                              else (Returns (), s\<lparr>errorLog := errorLog s @ [ErrorSendingToTopic err]\<rparr>))
           in
             if isMissingThreadError err then
               (case createTopicForVisitor env (clearVisitorTopic st2 visitorId) visitorId siteName of
                  (RejectsTypeError, st3) \<Rightarrow> (RejectsTypeError, st3)
                | (Returns replacementTopicId, st3) \<Rightarrow>
                    if truthyId replacementTopicId then
                      (case sendToTopicId env st3 cont kind fileUrl (the replacementTopicId) of
                         (None, st4) \<Rightarrow> (Returns (), st4)
                       | (Some retryErr, st4) \<Rightarrow>
                           if retryErr = Nullish then (RejectsTypeError, st4)
                           else (Returns (),
                                 st4\<lparr>errorLog := errorLog st4 @ [ErrorSendingToRecreatedTopic retryErr]\<rparr>))
                    else logged st3)
             else logged st2))"

definition sendToTopic ::
  "platform \<Rightarrow> state \<Rightarrow> string \<Rightarrow> string \<Rightarrow> message_kind \<Rightarrow> string \<Rightarrow> string option
   \<Rightarrow> unit completion \<times> state" where
  "sendToTopic env st visitorId cont kind siteName fileUrl =
     (if \<not> botReady st then (Returns (), st)
      else
        (let visitor = getVisitor (visitors st) visitorId;
             cached = (case visitor of None \<Rightarrow> None | Some v \<Rightarrow> telegram_topic_id v);
             (created, st1) =
               (if \<not> truthyId cached then createTopicForVisitor env st visitorId siteName
                else (Returns cached, st))
         in
           case created of
             RejectsTypeError \<Rightarrow> (RejectsTypeError, st1)
           | Returns topicId \<Rightarrow>
               if \<not> truthyId topicId then (Returns (), st1)
               else sendWithRecovery env st1 visitorId cont kind siteName fileUrl (the topicId)))"

text \<open>
  A platform that creates thread \<open>42\<close> and accepts every send, and a state whose only visitor
  is anonymous with no name and no email, for the examples.
\<close>

definition quietPlatform :: platform where
  "quietPlatform =
     \<lparr>createForumTopic = (\<lambda>calls title. TopicCreated 42),
      sendReply = (\<lambda>calls call. Sent),
      joinPublic = (\<lambda>relative. ''/app/public/'' @ relative),
      publicBase = ''/app/public/'',
      existsSync = (\<lambda>filePath. True)\<rparr>"

definition emptyState :: state where
  "emptyState =
     \<lparr>visitors = [], messages = [], tokenSessions = Map.empty, presenceSetting = None,
      rateLimits = Map.empty, clients = Map.empty, openSockets = {}, typingThrottle = Map.empty,
      botReady = True, botCalls = [], errorLog = []\<rparr>"

definition anonVisitor :: visitor_record where
  "anonVisitor =
     \<lparr>vid = ''anon-1'', vname = None, vsite = Some ''shop.example'', vemail = None,
      auth_type = anonymous_type, telegram_topic_id = None, v_created_at = 0, v_last_seen = 0\<rparr>"

text \<open>
  A platform on which thread \<open>7\<close> is gone: a send to it fails with the platform's
  \<open>message thread not found\<close>, a new thread gets id \<open>8\<close>, and a send to any other thread
  fails with another error.
\<close>

definition lostThreadPlatform :: platform where
  "lostThreadPlatform =
     quietPlatform
       \<lparr>createForumTopic := (\<lambda>calls title. TopicCreated 8),
        sendReply := (\<lambda>calls call.
          if call = SendMessage 7 ''hi''
          then SendFailed (ErrorObject (Some ''ETELEGRAM: 400 Bad Request: message thread not found''))
          else SendFailed (ErrorObject (Some ''ETELEGRAM: 429 Too Many Requests'')))\<rparr>"

text \<open>The state with that visitor, and the same with thread \<open>7\<close> cached on the visitor row.\<close>

definition anonShopState :: state where
  "anonShopState = emptyState\<lparr>visitors := [anonVisitor]\<rparr>"

definition lostThreadState :: state where
  "lostThreadState = emptyState\<lparr>visitors := [anonVisitor\<lparr>telegram_topic_id := Some 7\<rparr>]\<rparr>"

text \<open>A second anonymous visitor with no name and no email, and the state with both.\<close>

definition twoAnonState :: state where
  "twoAnonState = emptyState\<lparr>visitors := [anonVisitor, anonVisitor\<lparr>vid := ''anon-2''\<rparr>]\<rparr>"

text \<open>
  The platform on which thread \<open>7\<close> is gone, when it also refuses to create a thread; and
  when it creates thread \<open>8\<close> but rejects the send to it with \<open>null\<close>.
\<close>

definition noReplacementPlatform :: platform where
  "noReplacementPlatform =
     lostThreadPlatform
       \<lparr>createForumTopic := (\<lambda>calls title.
          CreateFailed (ErrorObject (Some ''ETELEGRAM: 400 Bad Request: not enough rights'')))\<rparr>"

definition nullRetryPlatform :: platform where
  "nullRetryPlatform =
     lostThreadPlatform
       \<lparr>sendReply := (\<lambda>calls call.
          if call = SendMessage 7 ''hi''
          then SendFailed (ErrorObject (Some ''ETELEGRAM: 400 Bad Request: message thread not found''))
          else SendFailed Nullish)\<rparr>"

section \<open>Session validator\<close>

text \<open>
  The claims of a decoded token.  \<open>isTokenClaims\<close> demands a string \<open>sub\<close>, a string \<open>jti\<close>
  and a number \<open>exp\<close>; a decoded payload that has them is \<open>Payload\<close>, any other decoded value
  is \<open>NotTokenClaims\<close>.  \<open>exp\<close> is a whole number of seconds, so \<open>Number.isFinite\<close> holds
  of it.  An optional claim that is absent is \<open>None\<close>.
\<close>

record token_claims =
  sub :: string
  jti :: string
  exp :: int
  site :: "string option"
  origin :: "string option"
  email :: "string option"
  name :: "string option"
  anon :: "bool option"

datatype jwt_decoded = NotTokenClaims | Payload token_claims

text \<open>
  What the program takes from outside: \<open>urlHost s\<close> is \<open>new URL(s).host\<close>, \<open>None\<close> when the
  constructor throws; \<open>jwtVerify token nowMs\<close> is \<open>jwt.verify\<close> under the configured secret
  at that time, \<open>None\<close> when it throws (bad signature, expired token); the allow-list and
  the site name come from the configuration.
\<close>

record auth_env =
  urlHost :: "string \<Rightarrow> string option"
  jwtVerify :: "string \<Rightarrow> int \<Rightarrow> jwt_decoded option"
  allowedOriginHosts :: "string list"
  SITE_NAME :: string

text \<open>\<open>replace(/^https?:\<bsol>/\<bsol>//i, '')\<close>\<close>

definition stripScheme :: "string \<Rightarrow> string" where
  "stripScheme s =
     (if startsWith (toLowerCase s) ''https://'' then drop 8 s
      else if startsWith (toLowerCase s) ''http://'' then drop 7 s
      else s)"

text \<open>
  \<open>replace(/\<bsol>/.*$/, '')\<close>: cut at the first slash after which no line terminator
  follows (the dot does not match one).
\<close>

fun cutPath :: "string \<Rightarrow> string" where
  "cutPath [] = []"
| "cutPath (c # cs) =
     (if c = CHR ''/'' \<and> \<not> hasLineTerminator cs then [] else c # cutPath cs)"

definition toHost :: "auth_env \<Rightarrow> string option \<Rightarrow> string option" where
  "toHost env input =
     (case input of
        None \<Rightarrow> None
      | Some s \<Rightarrow>
          (let raw = trim s in
           if raw = [] then None
           else
             (case urlHost env raw of
                Some host \<Rightarrow> Some (toLowerCase host)
              | None \<Rightarrow> orNull (Some (toLowerCase (cutPath (stripScheme raw)))))))"

definition originHost :: "auth_env \<Rightarrow> string \<Rightarrow> string option" where
  "originHost env originHeader =
     (if originHeader = [] then None
      else (case urlHost env originHeader of None \<Rightarrow> None | Some host \<Rightarrow> Some (toLowerCase host)))"

definition tokenSiteHost :: "auth_env \<Rightarrow> string option \<Rightarrow> string option" where
  "tokenSiteHost env siteClaim = toHost env siteClaim"

fun isTokenClaims :: "jwt_decoded \<Rightarrow> bool" where
  "isTokenClaims NotTokenClaims = False"
| "isTokenClaims (Payload claims) = True"

text \<open>
  \<open>validateTokenSession\<close>.  \<open>nowMs\<close> is \<open>Date.now()\<close>; the function compares in seconds,
  and the database stamps \<open>last_seen\<close> in seconds.  The table is returned with the inserted
  or touched row.
\<close>

definition validateTokenSession ::
  "auth_env \<Rightarrow> token_sessions \<Rightarrow> token_claims \<Rightarrow> string \<Rightarrow> int \<Rightarrow> bool \<times> token_sessions" where
  "validateTokenSession env tbl claims requestOriginHost nowMs =
     (let now = nowMs div 1000;
          tokenId = trim (jti claims);
          subject = trim (sub claims);
          expiry = exp claims
      in
        if tokenId = [] \<or> subject = [] \<or> expiry \<le> now then (False, tbl)
        else
          (let claimOriginHost = toHost env (origin claims);
               claimSite = tokenSiteHost env (site claims)
           in
             if truthy claimOriginHost \<and> claimOriginHost \<noteq> Some requestOriginHost then (False, tbl)
             else if truthy claimSite \<and> claimSite \<noteq> Some requestOriginHost then (False, tbl)
             else
               (case getTokenSession tbl tokenId of
                  None \<Rightarrow>
                    (True,
                     insertTokenSession tbl tokenId subject (orElse claimSite requestOriginHost)
                       requestOriginHost expiry now)
                | Some existing \<Rightarrow>
                    if revoked_at existing \<noteq> None then (False, tbl)
                    else if ts_sub existing \<noteq> subject then (False, tbl)
                    else if expires_at existing < now then (False, tbl)
                    else if truthy (origin_host existing) \<and> origin_host existing \<noteq> Some requestOriginHost
                    then (False, tbl)
                    else if truthy (ts_site existing) \<and> truthy claimSite \<and> ts_site existing \<noteq> claimSite
                    then (False, tbl)
                    else (True, touchTokenSession tbl tokenId now))))"

definition verifyToken ::
  "auth_env \<Rightarrow> token_sessions \<Rightarrow> string \<Rightarrow> string \<Rightarrow> int \<Rightarrow> token_claims option \<times> token_sessions" where
  "verifyToken env tbl token originHeader nowMs =
     (if token = [] then (None, tbl)
      else
        (case originHost env originHeader of
           None \<Rightarrow> (None, tbl)
         | Some requestOriginHost \<Rightarrow>
             if requestOriginHost = [] then (None, tbl)
             else if requestOriginHost \<notin> set (allowedOriginHosts env) then (None, tbl)
             else
               (case jwtVerify env token nowMs of
                  None \<Rightarrow> (None, tbl)
                | Some NotTokenClaims \<Rightarrow> (None, tbl)
                | Some (Payload decoded) \<Rightarrow>
                    (case validateTokenSession env tbl decoded requestOriginHost nowMs of
                       (False, tbl') \<Rightarrow> (None, tbl')
                     | (True, tbl') \<Rightarrow> (Some decoded, tbl')))))"

text \<open>
  \<open>POST /api/auth/revoke\<close> as far as the session table goes: \<open>requireAuth\<close> verifies the
  bearer token against the \<open>Origin\<close> header, then the handler revokes the row whose key is
  the \<open>jti\<close> claim as the token carries it.  The result is the HTTP status and the table.
\<close>

definition revokeRoute ::
  "auth_env \<Rightarrow> token_sessions \<Rightarrow> string \<Rightarrow> string \<Rightarrow> int \<Rightarrow> nat \<times> token_sessions" where
  "revokeRoute env tbl token originHeader nowMs =
     (case verifyToken env tbl token originHeader nowMs of
        (None, tbl') \<Rightarrow> (401, tbl')
      | (Some claims, tbl') \<Rightarrow>
          if jti claims = [] \<or> sub claims = [] then (400, tbl')
          else (200, revokeTokenSession tbl' (jti claims) (nowMs div 1000)))"

text \<open>
  The operations on the session table in the order they happen: a validation of a token
  presented with an \<open>Origin\<close> header, a request to the revoke route, and the purge that
  \<open>maintenanceTick\<close> runs on the table at \<open>Math.floor(Date.now() / 1000)\<close>.
\<close>

datatype session_op =
    Validate string string int
  | RevokeRequest string string int
  | Purge int

fun sessionStep :: "auth_env \<Rightarrow> token_sessions \<Rightarrow> session_op \<Rightarrow> token_sessions" where
  "sessionStep env tbl (Validate token originHeader nowMs) = snd (verifyToken env tbl token originHeader nowMs)"
| "sessionStep env tbl (RevokeRequest token originHeader nowMs) = snd (revokeRoute env tbl token originHeader nowMs)"
| "sessionStep env tbl (Purge nowMs) = purgeExpiredTokenSessions tbl (nowMs div 1000)"

definition runSessionOps :: "auth_env \<Rightarrow> token_sessions \<Rightarrow> session_op list \<Rightarrow> token_sessions" where
  "runSessionOps env tbl ops = foldl (sessionStep env) tbl ops"

text \<open>The operation is a purge that deletes the rows whose expiry is \<open>expiry\<close>.\<close>

fun purgedBy :: "int \<Rightarrow> session_op \<Rightarrow> bool" where
  "purgedBy expiry (Purge nowMs) = (expiry < nowMs div 1000)"
| "purgedBy expiry (Validate token originHeader nowMs) = False"
| "purgedBy expiry (RevokeRequest token originHeader nowMs) = False"

section \<open>HTTP: resolving the visitor and reading the history\<close>

text \<open>An HTTP outcome: the status with its error text, or the body of a success.\<close>

definition resolveVisitorId :: "token_claims \<Rightarrow> string \<Rightarrow> (nat \<times> string) + string" where
  "resolveVisitorId claims visitorParam =
     (if sub claims = [] then Inl (401, ''Invalid token subject'')
      else if visitorParam = [] then Inl (400, ''Invalid visitor id'')
      else if visitorParam \<noteq> sub claims then Inl (403, ''Forbidden visitor access'')
      else Inr (sub claims))"

text \<open>\<open>GET /api/chat/:visitorId/history\<close> after \<open>requireAuth\<close> has put the verified claims on the request.\<close>

definition historyHandler :: "state \<Rightarrow> token_claims \<Rightarrow> string \<Rightarrow> (nat \<times> string) + chat_message list" where
  "historyHandler st claims visitorParam =
     (case resolveVisitorId claims visitorParam of
        Inl failure \<Rightarrow> Inl failure
      | Inr visitorId \<Rightarrow> Inr (getHistory (messages st) visitorId))"

text \<open>
  Two messages of one visitor, the second stored when the clock reads one second less than
  at the first (the wall clock was set back in between), and claims whose subject is that
  visitor.
\<close>

definition clockSetBack :: "chat_message list" where
  "clockSetBack =
     fst (addMessage (fst (addMessage [] ''v1'' visitor_sender ''a'' text_kind None 100))
            ''v1'' visitor_sender ''b'' text_kind None 99)"

definition claimsOfV1 :: token_claims where
  "claimsOfV1 =
     \<lparr>sub = ''v1'', jti = ''j1'', exp = 1000, site = None, origin = None, email = None,
      name = None, anon = None\<rparr>"

text \<open>
  Two rows of the session table carry the same binding: origin host, subject and expiry are
  equal, and a revocation is not undone.
\<close>

definition sameBinding :: "token_session \<Rightarrow> token_session \<Rightarrow> bool" where
  "sameBinding r r' \<longleftrightarrow>
     origin_host r' = origin_host r \<and> ts_sub r' = ts_sub r \<and> expires_at r' = expires_at r
     \<and> (revoked_at r \<noteq> None \<longrightarrow> revoked_at r' \<noteq> None)"

text \<open>
  A configuration with two allow-listed origins and one validly signed token, for the
  examples: the token of \<open>alice\<close> with id \<open>jti-1\<close>, good until second \<open>2000\<close>.
\<close>

definition aliceClaims :: token_claims where
  "aliceClaims =
     \<lparr>sub = ''alice'', jti = ''jti-1'', exp = 2000, site = None, origin = None, email = None,
      name = None, anon = None\<rparr>"

definition demoAuthEnv :: auth_env where
  "demoAuthEnv =
     \<lparr>urlHost = (\<lambda>s. if s = ''https://a.example'' then Some ''a.example''
                      else if s = ''https://b.example'' then Some ''b.example'' else None),
      jwtVerify = (\<lambda>token nowMs. if token = ''token-1'' then Some (Payload aliceClaims) else None),
      allowedOriginHosts = [''a.example'', ''b.example''],
      SITE_NAME = ''default''\<rparr>"

text \<open>The row that the first validation of that token from \<open>https://a.example\<close> at second \<open>1000\<close> inserts.\<close>

definition aliceRow :: token_session where
  "aliceRow =
     \<lparr>ts_sub = ''alice'', ts_site = Some ''a.example'', origin_host = Some ''a.example'',
      expires_at = 2000, revoked_at = None, ts_last_seen = 1000\<rparr>"

text \<open>
  The same configuration with two more validly signed tokens: \<open>token-2\<close> carries the id of
  \<open>token-1\<close> and is good until second \<open>9000\<close>; \<open>token-3\<close> carries an id with a leading
  blank.
\<close>

definition renewedClaims :: token_claims where
  "renewedClaims = aliceClaims\<lparr>exp := 9000\<rparr>"

definition paddedClaims :: token_claims where
  "paddedClaims = aliceClaims\<lparr>jti := '' jti-3''\<rparr>"

definition threeTokenEnv :: auth_env where
  "threeTokenEnv =
     demoAuthEnv
       \<lparr>jwtVerify := (\<lambda>token nowMs.
          if token = ''token-1'' then Some (Payload aliceClaims)
          else if token = ''token-2'' then Some (Payload renewedClaims)
          else if token = ''token-3'' then Some (Payload paddedClaims)
          else None)\<rparr>"

section \<open>Connection gateway\<close>

text \<open>
  An incoming frame after \<open>parseWsMessage\<close>: text that is not JSON makes \<open>JSON.parse\<close> throw;
  the JSON value \<open>null\<close> makes the first property access throw; any other JSON value is
  read through its properties \<open>type\<close>, \<open>token\<close>, \<open>content\<close>, \<open>visitorId\<close> and \<open>site\<close>, each
  of them absent, a string, or something else (a number, an array, a string or a boolean has
  none of them).
\<close>

datatype json_field = JAbsent | JString string | JOther

record ws_message =
  msgType :: json_field
  msgToken :: json_field
  msgContent :: json_field
  msgVisitorId :: json_field
  msgSite :: json_field

datatype ws_frame = Unparseable | JsonNull | JsonValue ws_message

datatype out_frame =
    AuthOk
  | InitFrame string
  | PresenceFrame SupportPresenceState int
  | MessageFrame chat_message
  | ErrorFrame string

text \<open>
  What a handler does to the outside: frames written to a socket, a socket closed with a
  code and a reason, and the two calls into the topic bridge, which run on their own
  afterwards.
\<close>

datatype action =
    WsSend nat out_frame
  | WsClose nat nat string
  | SendTypingToTopic string
  | SendToTopic string string message_kind string "string option"

text \<open>
  The variables of one connection: the closure of the \<open>connection\<close> callback.
  \<open>authTimeout\<close> holds the time at which the pending timer is due, \<open>None\<close> once it is cleared
  or has fired.
\<close>

record connection =
  visitorId :: "string option"
  claims :: "token_claims option"
  rlKeys :: "string list"
  authenticated :: bool
  requestOrigin :: string
  requestIp :: string
  authTimeout :: "int option"

definition MAX_MESSAGE_LENGTH :: nat where "MAX_MESSAGE_LENGTH = 2000"
definition AUTH_TIMEOUT_MS :: int where "AUTH_TIMEOUT_MS = 5000"

definition siteFromClaims :: "auth_env \<Rightarrow> token_claims \<Rightarrow> string \<Rightarrow> string" where
  "siteFromClaims env c fallback = orElse (tokenSiteHost env (site c)) fallback"

definition isAnonClaims :: "token_claims \<Rightarrow> bool" where
  "isAnonClaims c = (anon c = Some True \<or> startsWith (sub c) ''anon-'')"

definition authTypeFromClaims :: "token_claims \<Rightarrow> VisitorAuthType" where
  "authTypeFromClaims c = (if isAnonClaims c then anonymous_type else authenticated_type)"

definition rateLimitKeys :: "auth_env \<Rightarrow> token_claims \<Rightarrow> string \<Rightarrow> string list" where
  "rateLimitKeys env c ip =
     (let siteHost = siteFromClaims env c ''unknown'';
          cleanIp = toLowerCase (orElse (Some ip) ''unknown'')
      in
        if isAnonClaims c then [''site:'' @ siteHost @ '':ip:'' @ cleanIp]
        else [''site:'' @ siteHost @ '':user:'' @ orElse (Some (sub c)) ''unknown'',
              ''site:'' @ siteHost @ '':ip:'' @ cleanIp])"

definition broadcastToVisitor :: "state \<Rightarrow> string \<Rightarrow> out_frame \<Rightarrow> action list" where
  "broadcastToVisitor st visitor frame =
     (case clients st visitor of
        None \<Rightarrow> []
      | Some sockets \<Rightarrow> map (\<lambda>socket. WsSend socket frame) (filter (\<lambda>socket. socket \<in> openSockets st) sockets))"

definition closeAuthRequired :: "nat \<Rightarrow> action" where
  "closeAuthRequired ws = WsClose ws 4001 ''Authentication required''"

text \<open>\<open>clients.get(visitorId).add(ws)\<close>, creating the set when the visitor has none.\<close>

definition registerSocket :: "state \<Rightarrow> string \<Rightarrow> nat \<Rightarrow> state" where
  "registerSocket st visitor ws =
     (let sockets = (case clients st visitor of None \<Rightarrow> [] | Some xs \<Rightarrow> xs)
      in st\<lparr>clients := (clients st)(visitor \<mapsto> (if ws \<in> set sockets then sockets else sockets @ [ws]))\<rparr>)"

text \<open>The handler of an \<open>init\<close> frame on an authenticated socket with claims \<open>c\<close>.\<close>

definition handleInit ::
  "auth_env \<Rightarrow> nat \<Rightarrow> int \<Rightarrow> token_claims \<Rightarrow> state \<times> connection \<Rightarrow> state \<times> connection \<times> action list" where
  "handleInit env ws now c sc =
     (case sc of (st, conn) \<Rightarrow>
        (let visitor = sub c;
             siteHost = siteFromClaims env c (SITE_NAME env);
             stored = st\<lparr>visitors := upsertVisitor (visitors st) visitor (orNull (name c)) (Some siteHost)
                                      (orNull (email c)) (authTypeFromClaims c) (now div 1000)\<rparr>
         in (registerSocket stored visitor ws,
             conn\<lparr>visitorId := Some visitor\<rparr>,
             [WsSend ws (InitFrame visitor),
              WsSend ws (PresenceFrame (getSupportPresenceState (presenceSetting stored)) now)])))"

definition handleTyping ::
  "nat \<Rightarrow> int \<Rightarrow> string \<Rightarrow> state \<times> connection \<Rightarrow> state \<times> connection \<times> action list" where
  "handleTyping ws now visitor sc =
     (case sc of (st, conn) \<Rightarrow>
        (let lastTyping = (case typingThrottle st visitor of None \<Rightarrow> 0 | Some t \<Rightarrow> t) in
         if now - lastTyping > 5000
         then (st\<lparr>typingThrottle := (typingThrottle st)(visitor \<mapsto> now)\<rparr>, conn, [SendTypingToTopic visitor])
         else (st, conn, [])))"

definition handleUserMessage ::
  "auth_env \<Rightarrow> nat \<Rightarrow> int \<Rightarrow> string \<Rightarrow> json_field \<Rightarrow> state \<times> connection
   \<Rightarrow> state \<times> connection \<times> action list" where
  "handleUserMessage env ws now visitor contentField sc =
     (case sc of (st, conn) \<Rightarrow>
        (case contentField of
           JString cont \<Rightarrow>
             if jsLength cont = 0 \<or> jsLength cont > MAX_MESSAGE_LENGTH
             then (st, conn, [WsSend ws (ErrorFrame ''Invalid message length (1-2000 chars)'')])
             else
               (case checkRateLimitKeys (rateLimits st) (rlKeys conn) now of
                  (False, limits) \<Rightarrow>
                    (st\<lparr>rateLimits := limits\<rparr>, conn, [WsSend ws (ErrorFrame ''Too many messages, slow down'')])
                | (True, limits) \<Rightarrow>
                    (case addMessage (messages st) visitor visitor_sender cont text_kind None (now div 1000) of
                       (stored, newId) \<Rightarrow>
                         (let st' = st\<lparr>rateLimits := limits, messages := stored\<rparr>;
                              outMsg = \<lparr>msg_id = newId, visitor_id = visitor, sender = visitor_sender,
                                        content = cont, mtype = text_kind, file_url = None,
                                        created_at = now\<rparr>;
                              siteHost = (case getVisitor (visitors st') visitor of
                                            None \<Rightarrow> SITE_NAME env
                                          | Some v \<Rightarrow> orElse (vsite v) (SITE_NAME env))
                          in (st', conn,
                              broadcastToVisitor st' visitor (MessageFrame outMsg)
                              @ [SendToTopic visitor cont text_kind siteHost None]))))
         | _ \<Rightarrow> (st, conn, [WsSend ws (ErrorFrame ''Invalid message length (1-2000 chars)'')])))"

text \<open>
  The \<open>message\<close> handler of a socket.  Whatever is thrown inside it is caught and logged:
  that is the case of a frame that does not parse, and of \<open>null\<close> at its first property
  access.
\<close>

definition onMessage ::
  "auth_env \<Rightarrow> nat \<Rightarrow> int \<Rightarrow> ws_frame \<Rightarrow> state \<times> connection \<Rightarrow> state \<times> connection \<times> action list" where
  "onMessage env ws now frame sc =
     (case sc of (st, conn) \<Rightarrow>
        (case frame of
           Unparseable \<Rightarrow> (st\<lparr>errorLog := errorLog st @ [WsError]\<rparr>, conn, [])
         | JsonNull \<Rightarrow>
             if authenticated conn \<and> claims conn = None then (st, conn, [closeAuthRequired ws])
             else (st\<lparr>errorLog := errorLog st @ [WsError]\<rparr>, conn, [])
         | JsonValue msg \<Rightarrow>
             if \<not> authenticated conn then
               (case msgToken msg of
                  JString token \<Rightarrow>
                    if msgType msg \<noteq> JString ''auth'' then (st, conn, [closeAuthRequired ws])
                    else
                      (case verifyToken env (tokenSessions st) token (requestOrigin conn) now of
                         (None, sessions) \<Rightarrow> (st\<lparr>tokenSessions := sessions\<rparr>, conn, [closeAuthRequired ws])
                       | (Some verified, sessions) \<Rightarrow>
                           (st\<lparr>tokenSessions := sessions\<rparr>,
                            conn\<lparr>claims := Some verified,
                                 rlKeys := rateLimitKeys env verified (requestIp conn),
                                 authenticated := True, authTimeout := None\<rparr>,
                            [WsSend ws AuthOk]))
                | _ \<Rightarrow> (st, conn, [closeAuthRequired ws]))
             else
               (case claims conn of
                  None \<Rightarrow> (st, conn, [closeAuthRequired ws])
                | Some c \<Rightarrow>
                    if msgType msg = JString ''init'' then handleInit env ws now c (st, conn)
                    else if msgType msg = JString ''typing'' \<and> truthy (visitorId conn)
                    then handleTyping ws now (the (visitorId conn)) (st, conn)
                    else if msgType msg = JString ''message'' \<and> truthy (visitorId conn)
                    then handleUserMessage env ws now (the (visitorId conn)) (msgContent msg) (st, conn)
                    else (st, conn, []))))"

text \<open>The callback of the authentication timer, run when the timer fires.\<close>

definition onAuthTimeout :: "nat \<Rightarrow> connection \<Rightarrow> action list" where
  "onAuthTimeout ws conn = (if \<not> authenticated conn then [closeAuthRequired ws] else [])"

definition onClose :: "nat \<Rightarrow> state \<times> connection \<Rightarrow> state \<times> connection \<times> action list" where
  "onClose ws sc =
     (case sc of (st, conn) \<Rightarrow>
        (let conn' = conn\<lparr>authTimeout := None\<rparr> in
         if truthy (visitorId conn) then
           (case clients st (the (visitorId conn)) of
              None \<Rightarrow> (st, conn', [])
            | Some sockets \<Rightarrow>
                (let remaining = filter (\<lambda>socket. socket \<noteq> ws) sockets in
                 (st\<lparr>clients := (if remaining = [] then (clients st)((the (visitorId conn)) := None)
                                   else (clients st)((the (visitorId conn)) \<mapsto> remaining))\<rparr>,
                  conn', [])))
         else (st, conn', [])))"

text \<open>
  A connection opens at time \<open>now\<close> with its timer due five seconds later.  The events of
  its life are the frames it receives, the run of a timer callback and the close of the
  socket; a timer event before the due time, or with no timer pending, finds nothing to run.
\<close>

definition openConnection :: "string \<Rightarrow> string \<Rightarrow> int \<Rightarrow> connection" where
  "openConnection originHeader ip now =
     \<lparr>visitorId = None, claims = None, rlKeys = [], authenticated = False,
      requestOrigin = originHeader, requestIp = ip, authTimeout = Some (now + AUTH_TIMEOUT_MS)\<rparr>"

datatype ws_event = MessageEvent int ws_frame | TimerEvent int | CloseEvent

fun connectionStep ::
  "auth_env \<Rightarrow> nat \<Rightarrow> state \<times> connection \<Rightarrow> ws_event \<Rightarrow> state \<times> connection \<times> action list" where
  "connectionStep env ws sc (MessageEvent now frame) = onMessage env ws now frame sc"
| "connectionStep env ws sc (TimerEvent now) =
     (case authTimeout (snd sc) of
        None \<Rightarrow> (fst sc, snd sc, [])
      | Some due \<Rightarrow>
          if now < due then (fst sc, snd sc, [])
          else (fst sc, (snd sc)\<lparr>authTimeout := None\<rparr>, onAuthTimeout ws (snd sc)))"
| "connectionStep env ws sc CloseEvent = onClose ws sc"

fun runConnection ::
  "auth_env \<Rightarrow> nat \<Rightarrow> state \<times> connection \<Rightarrow> ws_event list \<Rightarrow> state \<times> connection \<times> action list" where
  "runConnection env ws sc [] = (fst sc, snd sc, [])"
| "runConnection env ws sc (ev # evs) =
     (case connectionStep env ws sc ev of
        (st, conn, done) \<Rightarrow>
          (case runConnection env ws (st, conn) evs of
             (st', conn', later) \<Rightarrow> (st', conn', done @ later)))"

fun isMessageEvent :: "ws_event \<Rightarrow> bool" where
  "isMessageEvent (MessageEvent now frame) = True"
| "isMessageEvent (TimerEvent now) = False"
| "isMessageEvent CloseEvent = False"

fun isStringField :: "json_field \<Rightarrow> bool" where
  "isStringField (JString s) = True"
| "isStringField JAbsent = False"
| "isStringField JOther = False"

text \<open>
  The connection of \<open>alice\<close> after her token was accepted, and \<open>init\<close> frames that differ
  in the visitor id the client supplies, for the examples.
\<close>

definition aliceConn :: connection where
  "aliceConn =
     \<lparr>visitorId = None, claims = Some aliceClaims, rlKeys = [''site:unknown:user:alice'', ''site:unknown:ip:10.0.0.1''],
      authenticated = True, requestOrigin = ''https://a.example'', requestIp = ''10.0.0.1'',
      authTimeout = None\<rparr>"

definition initMsg :: "json_field \<Rightarrow> ws_message" where
  "initMsg suppliedId =
     \<lparr>msgType = JString ''init'', msgToken = JAbsent, msgContent = JAbsent,
      msgVisitorId = suppliedId, msgSite = JString ''a.example''\<rparr>"

section \<open>Proofs: rate limiter\<close>

lemma entryOf_upd: "entryOf (rl(k \<mapsto> e)) k' = (if k' = k then e else entryOf rl k')"
  by (simp add: entryOf_def getRateEntry_def split: option.splits)

lemma entryOf_alt: "entryOf rl k = (case rl k of None \<Rightarrow> emptyRateEntry | Some e \<Rightarrow> e)"
  by (simp add: entryOf_def getRateEntry_def split: option.splits)

lemma entryOf_None: "rl k = None \<Longrightarrow> entryOf rl k = emptyRateEntry"
  by (simp add: entryOf_def getRateEntry_def)

lemma prune_prune: "pruneEntry (pruneEntry e now) now = pruneEntry e now"
  by (simp add: pruneEntry_def)

lemma createEntries_lookup:
  "createEntries rl ks k = (if k \<in> set ks \<and> rl k = None then Some emptyRateEntry else rl k)"
  by (induction ks arbitrary: rl) (auto simp: getRateEntry_def split: option.splits)

lemma entryOf_createEntries: "entryOf (createEntries rl ks) k = entryOf rl k"
  by (simp add: entryOf_def getRateEntry_def createEntries_lookup split: option.splits)

lemma keyPasses_upd:
  "keyPasses (rl(k \<mapsto> pruneEntry (entryOf rl k) now)) k' now = keyPasses rl k' now"
  by (simp add: keyPasses_def entryOf_upd prune_prune)

lemma checkEntry_pass:
  "keyPasses rl key now \<Longrightarrow> checkEntry (entryOf rl key) now = (pruneEntry (entryOf rl key) now, True)"
  by (simp add: keyPasses_def checkEntry_def Let_def not_less not_le)

lemma checkEntry_fail:
  "\<not> keyPasses rl key now \<Longrightarrow> snd (checkEntry (entryOf rl key) now) = False"
  by (auto simp add: keyPasses_def checkEntry_def Let_def not_less not_le)

lemma checkLoop_pass_step:
  "keyPasses rl key now \<Longrightarrow>
   checkLoop rl (key # keys) now = checkLoop (rl(key \<mapsto> pruneEntry (entryOf rl key) now)) keys now"
  using checkEntry_pass [of rl key now] by (simp add: entryOf_def)

lemma checkLoop_fail_step:
  "\<not> keyPasses rl key now \<Longrightarrow>
   checkLoop rl (key # keys) now = (rl(key \<mapsto> fst (checkEntry (entryOf rl key) now)), False)"
  using checkEntry_fail [of rl key now]
  by (cases "checkEntry (snd (getRateEntry rl key)) now") (simp add: entryOf_def)

lemma checkLoop_ok: "snd (checkLoop rl ks now) \<longleftrightarrow> (\<forall>k\<in>set ks. keyPasses rl k now)"
proof (induction ks arbitrary: rl)
  case Nil
  show ?case by simp
next
  case (Cons key keys)
  show ?case
  proof (cases "keyPasses rl key now")
    case True
    let ?rl = "rl(key \<mapsto> pruneEntry (entryOf rl key) now)"
    have "snd (checkLoop ?rl keys now) \<longleftrightarrow> (\<forall>k\<in>set keys. keyPasses ?rl k now)"
      by (rule Cons.IH)
    then show ?thesis
      using True by (simp only: checkLoop_pass_step [OF True] keyPasses_upd) simp
  next
    case False
    then show ?thesis
      by (simp only: checkLoop_fail_step [OF False]) simp
  qed
qed

lemma checkLoop_pass_table:
  "snd (checkLoop rl ks now) \<Longrightarrow>
   fst (checkLoop rl ks now) = (\<lambda>k. if k \<in> set ks then Some (pruneEntry (entryOf rl k) now) else rl k)"
proof (induction ks arbitrary: rl)
  case Nil
  show ?case by simp
next
  case (Cons key keys)
  from Cons.prems have p: "keyPasses rl key now"
    unfolding checkLoop_ok by simp
  let ?rl = "rl(key \<mapsto> pruneEntry (entryOf rl key) now)"
  note step = checkLoop_pass_step [OF p, of keys]
  from Cons.prems have "snd (checkLoop ?rl keys now)"
    by (simp only: step)
  from Cons.IH [OF this] have
    "fst (checkLoop rl (key # keys) now) =
       (\<lambda>k. if k \<in> set keys then Some (pruneEntry (entryOf ?rl k) now) else ?rl k)"
    by (simp only: step)
  also have "\<dots> = (\<lambda>k. if k \<in> set (key # keys) then Some (pruneEntry (entryOf rl k) now) else rl k)"
    by (rule ext) (simp add: entryOf_upd prune_prune)
  finally show ?case .
qed

lemma pushLoop_table:
  "pushLoop rl ks now =
     (\<lambda>k. if k \<in> set ks then Some (pushTimes (entryOf rl k) (count_list ks k) now) else rl k)"
proof (induction ks arbitrary: rl)
  case Nil
  show ?case by simp
next
  case (Cons key keys)
  show ?case
    by (auto simp: Cons.IH fun_eq_iff entryOf_upd entryOf_def [symmetric] pushTimes_def pushNow_def
        count_list_0_iff)
qed

lemma windows_checkEntry: "windows (fst (checkEntry e now)) = windows (pruneEntry e now)"
  by (simp add: checkEntry_def windows_def Let_def)

lemma checkLoop_windows:
  "windows (entryOf (fst (checkLoop rl ks now)) k) = windows (entryOf rl k)
   \<or> windows (entryOf (fst (checkLoop rl ks now)) k) = windows (pruneEntry (entryOf rl k) now)"
proof (induction ks arbitrary: rl)
  case Nil
  show ?case by simp
next
  case (Cons key keys)
  show ?case
  proof (cases "keyPasses rl key now")
    case True
    define rl1 where "rl1 = rl(key \<mapsto> pruneEntry (entryOf rl key) now)"
    have e: "entryOf rl1 k = (if k = key then pruneEntry (entryOf rl key) now else entryOf rl k)"
      by (simp add: rl1_def entryOf_upd)
    have step: "checkLoop rl (key # keys) now = checkLoop rl1 keys now"
      unfolding rl1_def by (rule checkLoop_pass_step [OF True])
    have "windows (entryOf (fst (checkLoop rl1 keys now)) k) = windows (entryOf rl1 k)
      \<or> windows (entryOf (fst (checkLoop rl1 keys now)) k) = windows (pruneEntry (entryOf rl1 k) now)"
      by (rule Cons.IH)
    then show ?thesis
      unfolding step e by (cases "k = key") (simp_all add: prune_prune)
  next
    case False
    have "fst (checkLoop rl (key # keys) now) k =
            (if k = key then Some (fst (checkEntry (entryOf rl key) now)) else rl k)"
      by (simp only: checkLoop_fail_step [OF False]) simp
    then have "entryOf (fst (checkLoop rl (key # keys) now)) k =
            (if k = key then fst (checkEntry (entryOf rl key) now) else entryOf rl k)"
      by (simp add: entryOf_alt)
    then show ?thesis
      by (simp add: windows_checkEntry)
  qed
qed

lemma check_outcome:
  "(if \<forall>key\<in>set keys. keyPasses rl key now
    then fst (checkRateLimitKeys rl keys now) = True
       \<and> (\<forall>key\<in>set keys. snd (checkRateLimitKeys rl keys now) key =
             Some (pushTimes (pruneEntry (entryOf rl key) now) (count_list keys key) now))
       \<and> (\<forall>key. key \<notin> set keys \<longrightarrow> snd (checkRateLimitKeys rl keys now) key = rl key)
    else fst (checkRateLimitKeys rl keys now) = False
       \<and> (\<forall>key. windows (entryOf (snd (checkRateLimitKeys rl keys now)) key) = windows (entryOf rl key)
               \<or> windows (entryOf (snd (checkRateLimitKeys rl keys now)) key)
                   = windows (pruneEntry (entryOf rl key) now)))"
proof (cases "\<forall>key\<in>set keys. keyPasses rl key now")
  case True
  let ?rl = "createEntries rl keys"
  have kp: "\<And>k. keyPasses ?rl k now = keyPasses rl k now"
    by (simp add: keyPasses_def entryOf_createEntries)
  from True have ok: "snd (checkLoop ?rl keys now)"
    by (simp add: checkLoop_ok kp)
  then obtain rl' where cl: "checkLoop ?rl keys now = (rl', True)"
    by (cases "checkLoop ?rl keys now") simp
  have "fst (checkLoop ?rl keys now) =
          (\<lambda>k. if k \<in> set keys then Some (pruneEntry (entryOf ?rl k) now) else ?rl k)"
    by (rule checkLoop_pass_table [OF ok])
  then have rl': "rl' = (\<lambda>k. if k \<in> set keys then Some (pruneEntry (entryOf rl k) now) else ?rl k)"
    unfolding cl entryOf_createEntries by simp
  have res: "checkRateLimitKeys rl keys now = (True, pushLoop rl' keys now)"
    by (simp add: checkRateLimitKeys_def cl)
  have "\<forall>key\<in>set keys. pushLoop rl' keys now key =
          Some (pushTimes (pruneEntry (entryOf rl key) now) (count_list keys key) now)"
    by (simp add: pushLoop_table rl' entryOf_def getRateEntry_def)
  moreover have "\<forall>key. key \<notin> set keys \<longrightarrow> pushLoop rl' keys now key = rl key"
    by (simp add: pushLoop_table rl' createEntries_lookup)
  ultimately show ?thesis
    using True by (simp add: res)
next
  case False
  let ?rl = "createEntries rl keys"
  have kp: "\<And>k. keyPasses ?rl k now = keyPasses rl k now"
    by (simp add: keyPasses_def entryOf_createEntries)
  from False have "\<not> snd (checkLoop ?rl keys now)"
    by (simp add: checkLoop_ok kp)
  then have res: "checkRateLimitKeys rl keys now = (False, fst (checkLoop ?rl keys now))"
    by (cases "checkLoop ?rl keys now") (simp add: checkRateLimitKeys_def)
  show ?thesis
    using False checkLoop_windows [of ?rl keys now]
    by (simp add: res entryOf_createEntries)
qed

lemma check_single:
  "checkRateLimitKeys rl [key] now =
     (fst (checkOne (entryOf rl key) now), rl(key \<mapsto> snd (checkOne (entryOf rl key) now)))"
proof -
  have c: "createEntries rl [key] = fst (getRateEntry rl key)"
    by simp
  have e: "snd (getRateEntry (fst (getRateEntry rl key)) key) = entryOf rl key"
    by (simp add: entryOf_def getRateEntry_def split: option.splits)
  have u: "\<And>x. (fst (getRateEntry rl key))(key \<mapsto> x) = rl(key \<mapsto> x)"
    by (simp add: getRateEntry_def split: option.splits)
  have g: "\<And>m x. snd (getRateEntry (m(key \<mapsto> x)) key) = x"
    by (simp add: getRateEntry_def)
  show ?thesis
    unfolding checkRateLimitKeys_def c
    by (cases "checkEntry (entryOf rl key) now")
       (simp add: e u g checkOne_def split: bool.splits)
qed

lemma runChecks_runOne:
  "fst (runChecks rl key ts) = fst (runOne (entryOf rl key) ts)"
proof (induction ts arbitrary: rl)
  case Nil
  show ?case by simp
next
  case (Cons now ts)
  define rl1 where "rl1 = rl(key \<mapsto> snd (checkOne (entryOf rl key) now))"
  have e1: "entryOf rl1 key = snd (checkOne (entryOf rl key) now)"
    by (simp add: rl1_def entryOf_alt)
  have "fst (runChecks rl1 key ts) = fst (runOne (entryOf rl1 key) ts)"
    by (rule Cons.IH)
  then show ?case
    unfolding e1
    by (auto simp add: check_single rl1_def [symmetric] split: prod.splits)
qed

lemma length_filter_mono:
  "(\<And>x. x \<in> set xs \<Longrightarrow> P x \<Longrightarrow> Q x) \<Longrightarrow> length (filter P xs) \<le> length (filter Q xs)"
  by (induction xs) auto

lemma checkOne_short:
  "short (snd (checkOne e now)) =
     filter (\<lambda>t. now - t < RATE_SHORT_WINDOW) (short e) @ (if fst (checkOne e now) then [now] else [])"
  by (simp add: checkOne_def checkEntry_def pruneEntry_def pushNow_def Let_def)

lemma checkOne_accept_room:
  "fst (checkOne e now) \<Longrightarrow> length (filter (\<lambda>t. now - t < RATE_SHORT_WINDOW) (short e)) < RATE_SHORT_MAX"
  by (simp add: checkOne_def checkEntry_def pruneEntry_def Let_def split: if_splits)

lemma acceptedTimes_Cons:
  "acceptedTimes (now # ts) (ok # oks) = (if ok then [now] else []) @ acceptedTimes ts oks"
  by (simp add: acceptedTimes_def)

lemma runOne_Cons:
  "fst (runOne e (now # ts)) = fst (checkOne e now) # fst (runOne (snd (checkOne e now)) ts)"
  by (simp split: prod.splits)

lemma span_invariant:
  assumes "sorted (prev # ts)"
    and "short e = filter (\<lambda>u. prev - u < RATE_SHORT_WINDOW) acc"
    and "\<forall>s. length (filter (\<lambda>u. s \<le> u \<and> u < s + RATE_SHORT_WINDOW) acc) \<le> RATE_SHORT_MAX"
  shows "\<forall>s. length (filter (\<lambda>u. s \<le> u \<and> u < s + RATE_SHORT_WINDOW)
                     (acc @ acceptedTimes ts (fst (runOne e ts)))) \<le> RATE_SHORT_MAX"
  using assms
proof (induction ts arbitrary: e acc prev)
  case Nil
  then show ?case by (simp add: acceptedTimes_def)
next
  case (Cons now ts)
  define ok where "ok = fst (checkOne e now)"
  define e' where "e' = snd (checkOne e now)"
  define acc' where "acc' = acc @ (if ok then [now] else [])"
  from Cons.prems(1) have le: "prev \<le> now" and srt: "sorted (now # ts)"
    by simp_all
  have young: "filter (\<lambda>t. now - t < RATE_SHORT_WINDOW) (short e)
             = filter (\<lambda>t. now - t < RATE_SHORT_WINDOW) acc"
    unfolding Cons.prems(2) filter_filter using le by (intro filter_cong) auto
  have sh: "short e' = filter (\<lambda>u. now - u < RATE_SHORT_WINDOW) acc'"
    unfolding e'_def acc'_def checkOne_short young ok_def
    by (simp add: RATE_SHORT_WINDOW_def)
  have bound: "\<forall>s. length (filter (\<lambda>u. s \<le> u \<and> u < s + RATE_SHORT_WINDOW) acc') \<le> RATE_SHORT_MAX"
  proof (cases ok)
    case False
    then show ?thesis using Cons.prems(3) by (simp add: acc'_def)
  next
    case True
    then have room: "length (filter (\<lambda>t. now - t < RATE_SHORT_WINDOW) acc) < RATE_SHORT_MAX"
      using checkOne_accept_room [of e now] young by (simp add: ok_def)
    show ?thesis
    proof
      fix s
      show "length (filter (\<lambda>u. s \<le> u \<and> u < s + RATE_SHORT_WINDOW) acc') \<le> RATE_SHORT_MAX"
      proof (cases "s \<le> now \<and> now < s + RATE_SHORT_WINDOW")
        case False
        then show ?thesis using Cons.prems(3) True by (auto simp: acc'_def)
      next
        case inside: True
        have "length (filter (\<lambda>u. s \<le> u \<and> u < s + RATE_SHORT_WINDOW) acc)
              \<le> length (filter (\<lambda>t. now - t < RATE_SHORT_WINDOW) acc)"
          using inside by (intro length_filter_mono) auto
        with room show ?thesis using True inside by (simp add: acc'_def)
      qed
    qed
  qed
  have "\<forall>s. length (filter (\<lambda>u. s \<le> u \<and> u < s + RATE_SHORT_WINDOW)
                     (acc' @ acceptedTimes ts (fst (runOne e' ts)))) \<le> RATE_SHORT_MAX"
    by (rule Cons.IH [OF srt sh bound])
  then show ?case
    unfolding runOne_Cons acceptedTimes_Cons acc'_def ok_def e'_def by simp
qed

lemma six_calls:
  assumes "0 \<le> t1" "t1 \<le> t2" "t2 \<le> t3" "t3 \<le> t4" "t4 \<le> t5" "t5 \<le> t6" "t6 - t1 < RATE_SHORT_WINDOW"
  shows "fst (runOne emptyRateEntry [t1, t2, t3, t4, t5, t6]) = [True, True, True, True, True, False]"
  using assms
  by (simp add: checkOne_def checkEntry_def pruneEntry_def pushNow_def emptyRateEntry_def Let_def
      RATE_SHORT_WINDOW_def RATE_SHORT_MAX_def RATE_MEDIUM_MAX_def RATE_MEDIUM_WINDOW_def
      RATE_DAILY_MAX_def RATE_DAILY_WINDOW_def BURST_STRIKE_THRESHOLD_def)

lemma check_result: "fst (checkRateLimitKeys rl keys now) \<longleftrightarrow> (\<forall>key\<in>set keys. keyPasses rl key now)"
  using check_outcome [of keys rl now] by (auto split: if_splits)

lemma check_pass_entry:
  assumes "fst (checkRateLimitKeys rl keys now)"
  shows "entryOf (snd (checkRateLimitKeys rl keys now)) key =
           (if key \<in> set keys then pushTimes (pruneEntry (entryOf rl key) now) (count_list keys key) now
            else entryOf rl key)"
proof -
  from assms have all: "\<forall>key\<in>set keys. keyPasses rl key now"
    by (simp add: check_result)
  with check_outcome [of keys rl now]
  have 1: "\<forall>key\<in>set keys. snd (checkRateLimitKeys rl keys now) key =
             Some (pushTimes (pruneEntry (entryOf rl key) now) (count_list keys key) now)"
    and 2: "\<forall>key. key \<notin> set keys \<longrightarrow> snd (checkRateLimitKeys rl keys now) key = rl key"
    by simp_all
  show ?thesis
  proof (cases "key \<in> set keys")
    case True
    with 1 show ?thesis by (simp add: entryOf_alt)
  next
    case False
    with 2 show ?thesis by (simp add: entryOf_alt)
  qed
qed

lemma checkLoop_first_failing:
  "find (\<lambda>k. \<not> keyPasses rl k now) ks = Some key \<Longrightarrow>
   entryOf (fst (checkLoop rl ks now)) key = fst (checkEntry (entryOf rl key) now)"
proof (induction ks arbitrary: rl)
  case Nil
  then show ?case by simp
next
  case (Cons k ks)
  show ?case
  proof (cases "keyPasses rl k now")
    case False
    with Cons.prems have k: "k = key" by simp
    have "fst (checkLoop rl (k # ks) now) key = Some (fst (checkEntry (entryOf rl key) now))"
      by (simp only: checkLoop_fail_step [OF False]) (simp add: k)
    then show ?thesis by (simp add: entryOf_alt)
  next
    case True
    define rl1 where "rl1 = rl(k \<mapsto> pruneEntry (entryOf rl k) now)"
    have kp: "\<And>k'. keyPasses rl1 k' now = keyPasses rl k' now"
      unfolding rl1_def by (rule keyPasses_upd)
    have step: "checkLoop rl (k # ks) now = checkLoop rl1 ks now"
      unfolding rl1_def by (rule checkLoop_pass_step [OF True])
    from Cons.prems True have f: "find (\<lambda>k. \<not> keyPasses rl1 k now) ks = Some key"
      by (simp add: kp)
    then have "\<not> keyPasses rl key now"
      by (auto simp: find_Some_iff kp)
    with True have ne: "key \<noteq> k" by auto
    have e: "entryOf rl1 key = entryOf rl key"
      using ne by (simp add: rl1_def entryOf_alt)
    have "entryOf (fst (checkLoop rl1 ks now)) key = fst (checkEntry (entryOf rl1 key) now)"
      by (rule Cons.IH [OF f])
    then show ?thesis unfolding step e .
  qed
qed

lemma check_rejected_entry:
  assumes "firstFailing rl keys now = Some key"
  shows "\<not> fst (checkRateLimitKeys rl keys now)"
    and "entryOf (snd (checkRateLimitKeys rl keys now)) key = fst (checkEntry (entryOf rl key) now)"
proof -
  from assms have nk: "\<not> keyPasses rl key now" and mem: "key \<in> set keys"
    by (auto simp: firstFailing_def find_Some_iff)
  then show no: "\<not> fst (checkRateLimitKeys rl keys now)"
    by (auto simp: check_result)
  let ?rl = "createEntries rl keys"
  have kp: "\<And>k. keyPasses ?rl k now = keyPasses rl k now"
    by (simp add: keyPasses_def entryOf_createEntries)
  from no have res: "snd (checkRateLimitKeys rl keys now) = fst (checkLoop ?rl keys now)"
    by (cases "checkLoop ?rl keys now") (auto simp add: checkRateLimitKeys_def split: bool.splits)
  from assms have "find (\<lambda>k. \<not> keyPasses ?rl k now) keys = Some key"
    by (simp add: firstFailing_def kp)
  from checkLoop_first_failing [OF this] show
    "entryOf (snd (checkRateLimitKeys rl keys now)) key = fst (checkEntry (entryOf rl key) now)"
    by (simp add: res entryOf_createEntries)
qed

lemma short_rejection_entry:
  assumes "shortRejection e now"
  shows "fst (checkEntry e now) =
     (if burstStrikes e + 1 \<ge> BURST_STRIKE_THRESHOLD
      then (pruneEntry e now)\<lparr>blockedUntil := now + BURST_COOLDOWN, burstStrikes := 0\<rparr>
      else (pruneEntry e now)\<lparr>burstStrikes := burstStrikes e + 1\<rparr>)"
  using assms by (simp add: shortRejection_def checkEntry_def Let_def pruneEntry_def)

lemma checkEntry_blocked:
  "blockedUntil e > now \<Longrightarrow> checkEntry e now = (pruneEntry e now, False)"
  by (simp add: checkEntry_def pruneEntry_def Let_def)

lemma checkLoop_blocked_keeps:
  "blockedUntil (entryOf rl key) > now \<Longrightarrow>
   blockedUntil (entryOf (fst (checkLoop rl ks now)) key) = blockedUntil (entryOf rl key)"
proof (induction ks arbitrary: rl)
  case Nil
  show ?case by simp
next
  case (Cons k ks)
  show ?case
  proof (cases "keyPasses rl k now")
    case False
    have "fst (checkLoop rl (k # ks) now) key =
            (if key = k then Some (fst (checkEntry (entryOf rl k) now)) else rl key)"
      by (simp only: checkLoop_fail_step [OF False]) simp
    then have "entryOf (fst (checkLoop rl (k # ks) now)) key =
            (if key = k then fst (checkEntry (entryOf rl k) now) else entryOf rl key)"
      by (simp add: entryOf_alt)
    then show ?thesis
      using Cons.prems by (auto simp: checkEntry_blocked pruneEntry_def)
  next
    case True
    define rl1 where "rl1 = rl(k \<mapsto> pruneEntry (entryOf rl k) now)"
    have step: "checkLoop rl (k # ks) now = checkLoop rl1 ks now"
      unfolding rl1_def by (rule checkLoop_pass_step [OF True])
    have e: "blockedUntil (entryOf rl1 key) = blockedUntil (entryOf rl key)"
      by (simp add: rl1_def entryOf_alt pruneEntry_def)
    with Cons.prems have "blockedUntil (entryOf rl1 key) > now" by simp
    from Cons.IH [OF this] show ?thesis
      unfolding step e .
  qed
qed

lemma check_blocked:
  assumes "blockedUntil (entryOf rl key) > now"
  shows "key \<in> set keys \<Longrightarrow> \<not> fst (checkRateLimitKeys rl keys now)"
    and "blockedUntil (entryOf (snd (checkRateLimitKeys rl keys now)) key) = blockedUntil (entryOf rl key)"
proof -
  from assms have nk: "\<not> keyPasses rl key now"
    by (simp add: keyPasses_def pruneEntry_def)
  then show "key \<in> set keys \<Longrightarrow> \<not> fst (checkRateLimitKeys rl keys now)"
    by (auto simp: check_result)
  show "blockedUntil (entryOf (snd (checkRateLimitKeys rl keys now)) key) = blockedUntil (entryOf rl key)"
  proof (cases "fst (checkRateLimitKeys rl keys now)")
    case True
    then have "key \<notin> set keys" using nk by (auto simp: check_result)
    with check_pass_entry [OF True, of key] show ?thesis by simp
  next
    case False
    let ?rl = "createEntries rl keys"
    from False have res: "snd (checkRateLimitKeys rl keys now) = fst (checkLoop ?rl keys now)"
      by (cases "checkLoop ?rl keys now") (auto simp add: checkRateLimitKeys_def split: bool.splits)
    from assms have "blockedUntil (entryOf ?rl key) > now"
      by (simp add: entryOf_createEntries)
    from checkLoop_blocked_keeps [OF this] show ?thesis
      by (simp add: res entryOf_createEntries)
  qed
qed

lemma tick_blocked:
  "blockedUntil (entryOf rl key) > now \<Longrightarrow>
   blockedUntil (entryOf (maintenanceTick rl now) key) = blockedUntil (entryOf rl key)"
  by (auto simp: maintenanceTick_def entryOf_alt Let_def pruneEntry_def split: option.splits)

lemma runEvents_Check:
  "fst (runEvents rl (Check ks now # evs)) =
     (ks, fst (checkRateLimitKeys rl ks now)) # fst (runEvents (snd (checkRateLimitKeys rl ks now)) evs)"
  "snd (runEvents rl (Check ks now # evs)) = snd (runEvents (snd (checkRateLimitKeys rl ks now)) evs)"
  by (simp_all split: prod.splits)

lemma block_persists:
  "\<forall>ev\<in>set evs. eventTime ev < blockedUntil (entryOf rl key) \<Longrightarrow>
   (\<forall>(ks, ok)\<in>set (fst (runEvents rl evs)). key \<in> set ks \<longrightarrow> \<not> ok)
   \<and> blockedUntil (entryOf (snd (runEvents rl evs)) key) = blockedUntil (entryOf rl key)"
proof (induction evs arbitrary: rl)
  case Nil
  show ?case by simp
next
  case (Cons ev evs)
  show ?case
  proof (cases ev)
    case (Check ks now)
    define rl1 where "rl1 = snd (checkRateLimitKeys rl ks now)"
    from Cons.prems Check have b: "blockedUntil (entryOf rl key) > now" by simp
    have keep: "blockedUntil (entryOf rl1 key) = blockedUntil (entryOf rl key)"
      unfolding rl1_def by (rule check_blocked(2) [OF b])
    have rej: "key \<in> set ks \<Longrightarrow> \<not> fst (checkRateLimitKeys rl ks now)"
      by (rule check_blocked(1) [OF b])
    from Cons.prems have "\<forall>ev\<in>set evs. eventTime ev < blockedUntil (entryOf rl1 key)"
      by (simp add: keep)
    from Cons.IH [OF this] show ?thesis
      using rej unfolding Check runEvents_Check rl1_def [symmetric] by (simp add: keep)
  next
    case (Tick now)
    define rl1 where "rl1 = maintenanceTick rl now"
    from Cons.prems Tick have b: "blockedUntil (entryOf rl key) > now" by simp
    have keep: "blockedUntil (entryOf rl1 key) = blockedUntil (entryOf rl key)"
      unfolding rl1_def by (rule tick_blocked [OF b])
    from Cons.prems have "\<forall>ev\<in>set evs. eventTime ev < blockedUntil (entryOf rl1 key)"
      by (simp add: keep)
    from Cons.IH [OF this] show ?thesis
      by (simp add: Tick keep rl1_def [symmetric])
  qed
qed

lemma strike_step:
  assumes "rejectedByShort rl ks key now"
  shows "\<not> fst (checkRateLimitKeys rl ks now)"
    and "burstStrikes (entryOf rl key) + 1 \<ge> BURST_STRIKE_THRESHOLD \<Longrightarrow>
         blockedUntil (entryOf (snd (checkRateLimitKeys rl ks now)) key) = now + BURST_COOLDOWN
         \<and> burstStrikes (entryOf (snd (checkRateLimitKeys rl ks now)) key) = 0"
    and "burstStrikes (entryOf rl key) + 1 < BURST_STRIKE_THRESHOLD \<Longrightarrow>
         burstStrikes (entryOf (snd (checkRateLimitKeys rl ks now)) key) = burstStrikes (entryOf rl key) + 1"
proof -
  from assms have ff: "firstFailing rl ks now = Some key" and sr: "shortRejection (entryOf rl key) now"
    by (simp_all add: rejectedByShort_def)
  show "\<not> fst (checkRateLimitKeys rl ks now)"
    by (rule check_rejected_entry(1) [OF ff])
  note e = check_rejected_entry(2) [OF ff] short_rejection_entry [OF sr]
  show "burstStrikes (entryOf rl key) + 1 \<ge> BURST_STRIKE_THRESHOLD \<Longrightarrow>
         blockedUntil (entryOf (snd (checkRateLimitKeys rl ks now)) key) = now + BURST_COOLDOWN
         \<and> burstStrikes (entryOf (snd (checkRateLimitKeys rl ks now)) key) = 0"
    by (simp add: e)
  show "burstStrikes (entryOf rl key) + 1 < BURST_STRIKE_THRESHOLD \<Longrightarrow>
         burstStrikes (entryOf (snd (checkRateLimitKeys rl ks now)) key) = burstStrikes (entryOf rl key) + 1"
    by (simp add: e)
qed

lemma three_strikes:
  assumes "0 \<le> burstStrikes (entryOf rl0 key)"
    and "rejectedByShort rl0 ks1 key n1" and "rl1 = snd (checkRateLimitKeys rl0 ks1 n1)"
    and "rejectedByShort rl1 ks2 key n2" and "rl2 = snd (checkRateLimitKeys rl1 ks2 n2)"
    and "rejectedByShort rl2 ks3 key n3" and "rl3 = snd (checkRateLimitKeys rl2 ks3 n3)"
  shows "\<exists>(n, rl)\<in>set [(n1, rl1), (n2, rl2), (n3, rl3)].
           blockedUntil (entryOf rl key) = n + BURST_COOLDOWN \<and> burstStrikes (entryOf rl key) = 0"
    and "burstStrikes (entryOf rl0 key) = 0 \<Longrightarrow>
           blockedUntil (entryOf rl3 key) = n3 + BURST_COOLDOWN \<and> burstStrikes (entryOf rl3 key) = 0"
proof -
  note s1 = strike_step(2,3) [OF assms(2), folded assms(3)]
  note s2 = strike_step(2,3) [OF assms(4), folded assms(5)]
  note s3 = strike_step(2,3) [OF assms(6), folded assms(7)]
  show "\<exists>(n, rl)\<in>set [(n1, rl1), (n2, rl2), (n3, rl3)].
           blockedUntil (entryOf rl key) = n + BURST_COOLDOWN \<and> burstStrikes (entryOf rl key) = 0"
  proof (cases "burstStrikes (entryOf rl0 key) + 1 \<ge> BURST_STRIKE_THRESHOLD")
    case True
    from s1(1) [OF True] show ?thesis by simp
  next
    case f1: False
    then have b1: "burstStrikes (entryOf rl1 key) = burstStrikes (entryOf rl0 key) + 1"
      using s1(2) by simp
    show ?thesis
    proof (cases "burstStrikes (entryOf rl1 key) + 1 \<ge> BURST_STRIKE_THRESHOLD")
      case True
      from s2(1) [OF True] show ?thesis by simp
    next
      case f2: False
      then have b2: "burstStrikes (entryOf rl2 key) = burstStrikes (entryOf rl1 key) + 1"
        using s2(2) by simp
      have "burstStrikes (entryOf rl2 key) + 1 \<ge> BURST_STRIKE_THRESHOLD"
        using assms(1) b1 b2 by (simp add: BURST_STRIKE_THRESHOLD_def)
      from s3(1) [OF this] show ?thesis by simp
    qed
  qed
  show "blockedUntil (entryOf rl3 key) = n3 + BURST_COOLDOWN \<and> burstStrikes (entryOf rl3 key) = 0"
    if z: "burstStrikes (entryOf rl0 key) = 0"
  proof -
    have b1: "burstStrikes (entryOf rl1 key) = 1"
      using s1(2) z by (simp add: BURST_STRIKE_THRESHOLD_def)
    have b2: "burstStrikes (entryOf rl2 key) = 2"
      using s2(2) b1 by (simp add: BURST_STRIKE_THRESHOLD_def)
    show ?thesis
      using s3(1) b2 by (simp add: BURST_STRIKE_THRESHOLD_def)
  qed
qed

lemma span_bound_fresh:
  assumes "rl key = None" and "sorted ts"
  shows "length (filter (\<lambda>u. s \<le> u \<and> u < s + RATE_SHORT_WINDOW)
           (acceptedTimes ts (fst (runChecks rl key ts)))) \<le> RATE_SHORT_MAX"
proof (cases ts)
  case Nil
  then show ?thesis by (simp add: acceptedTimes_def)
next
  case (Cons t ts')
  with assms(2) have srt: "sorted (t # ts)" by simp
  have e: "short (entryOf rl key) = filter (\<lambda>u. t - u < RATE_SHORT_WINDOW) []"
    by (simp add: entryOf_None [of rl key, OF assms(1)] emptyRateEntry_def)
  have "\<forall>s. length (filter (\<lambda>u. s \<le> u \<and> u < s + RATE_SHORT_WINDOW)
          ([] @ acceptedTimes ts (fst (runOne (entryOf rl key) ts)))) \<le> RATE_SHORT_MAX"
    by (rule span_invariant [OF srt e]) simp
  then show ?thesis by (simp add: runChecks_runOne)
qed

lemmas rate_eval =
  checkRateLimitKeys_def checkEntry_def pruneEntry_def pushNow_def getRateEntry_def emptyRateEntry_def
  keyPasses_def entryOf_alt rejectedByShort_def firstFailing_def shortRejection_def fullShort_def
  RATE_SHORT_MAX_def RATE_SHORT_WINDOW_def RATE_MEDIUM_MAX_def RATE_MEDIUM_WINDOW_def
  RATE_DAILY_MAX_def RATE_DAILY_WINDOW_def BURST_COOLDOWN_def BURST_STRIKE_THRESHOLD_def Let_def

lemma runOne_snd_Cons:
  "snd (runOne e (now # ts)) = snd (runOne (snd (checkOne e now)) ts)"
  by (simp split: prod.splits)

lemma runChecks_entry:
  "entryOf (snd (runChecks rl key ts)) key = snd (runOne (entryOf rl key) ts)"
proof (induction ts arbitrary: rl)
  case Nil
  show ?case by simp
next
  case (Cons now ts)
  define rl1 where "rl1 = rl(key \<mapsto> snd (checkOne (entryOf rl key) now))"
  have e1: "entryOf rl1 key = snd (checkOne (entryOf rl key) now)"
    by (simp add: rl1_def entryOf_alt)
  have "entryOf (snd (runChecks rl1 key ts)) key = snd (runOne (entryOf rl1 key) ts)"
    by (rule Cons.IH)
  then show ?case
    unfolding e1
    by (auto simp add: check_single rl1_def [symmetric] split: prod.splits)
qed

lemma short_invariant:
  assumes "sorted (prev # ts)"
    and "short e = filter (\<lambda>u. prev - u < RATE_SHORT_WINDOW) acc"
  shows "short (snd (runOne e ts)) =
           filter (\<lambda>u. last (prev # ts) - u < RATE_SHORT_WINDOW) (acc @ acceptedTimes ts (fst (runOne e ts)))"
  using assms
proof (induction ts arbitrary: e acc prev)
  case Nil
  then show ?case by (simp add: acceptedTimes_def)
next
  case (Cons now ts)
  define ok where "ok = fst (checkOne e now)"
  define e' where "e' = snd (checkOne e now)"
  define acc' where "acc' = acc @ (if ok then [now] else [])"
  from Cons.prems(1) have le: "prev \<le> now" and srt: "sorted (now # ts)"
    by simp_all
  have young: "filter (\<lambda>t. now - t < RATE_SHORT_WINDOW) (short e)
             = filter (\<lambda>t. now - t < RATE_SHORT_WINDOW) acc"
    unfolding Cons.prems(2) filter_filter using le by (intro filter_cong) auto
  have sh: "short e' = filter (\<lambda>u. now - u < RATE_SHORT_WINDOW) acc'"
    unfolding e'_def acc'_def checkOne_short young ok_def
    by (simp add: RATE_SHORT_WINDOW_def)
  have "short (snd (runOne e' ts)) =
           filter (\<lambda>u. last (now # ts) - u < RATE_SHORT_WINDOW) (acc' @ acceptedTimes ts (fst (runOne e' ts)))"
    by (rule Cons.IH [OF srt sh])
  then show ?case
    unfolding runOne_Cons runOne_snd_Cons acceptedTimes_Cons acc'_def ok_def e'_def by simp
qed

lemma short_window_fresh:
  assumes "rl key = None" and "sorted ts" and "ts \<noteq> []"
  shows "short (entryOf (snd (runChecks rl key ts)) key) =
           filter (\<lambda>u. last ts - u < RATE_SHORT_WINDOW) (acceptedTimes ts (fst (runChecks rl key ts)))"
proof -
  from assms(3) obtain t ts' where ts: "ts = t # ts'" by (cases ts) auto
  with assms(2) have srt: "sorted (t # ts)" by simp
  have e: "short (entryOf rl key) = filter (\<lambda>u. t - u < RATE_SHORT_WINDOW) []"
    by (simp add: entryOf_None [of rl key, OF assms(1)] emptyRateEntry_def)
  from short_invariant [OF srt e] show ?thesis
    using assms(3) by (simp add: runChecks_runOne runChecks_entry)
qed

lemma accepted_subset: "set (acceptedTimes ts oks) \<subseteq> set ts"
  by (auto simp: acceptedTimes_def dest: set_zip_leftD)

lemma next_check_fresh:
  assumes "rl key = None" and "sorted ts" and "\<forall>u\<in>set ts. u \<le> t"
  shows "fst (checkRateLimitKeys (snd (runChecks rl key ts)) [key] t) \<longleftrightarrow>
           length (filter (\<lambda>u. t - u < RATE_SHORT_WINDOW) (acceptedTimes ts (fst (runChecks rl key ts))))
             < RATE_SHORT_MAX
           \<and> \<not> blockedUntil (entryOf (snd (runChecks rl key ts)) key) > t
           \<and> length (filter (\<lambda>u. t - u < RATE_MEDIUM_WINDOW) (medium (entryOf (snd (runChecks rl key ts)) key)))
               < RATE_MEDIUM_MAX
           \<and> length (filter (\<lambda>u. t - u < RATE_DAILY_WINDOW) (daily (entryOf (snd (runChecks rl key ts)) key)))
               < RATE_DAILY_MAX"
proof -
  define acc where "acc = acceptedTimes ts (fst (runChecks rl key ts))"
  define e where "e = entryOf (snd (runChecks rl key ts)) key"
  have young: "filter (\<lambda>u. t - u < RATE_SHORT_WINDOW) (short e) = filter (\<lambda>u. t - u < RATE_SHORT_WINDOW) acc"
  proof (cases "ts = []")
    case True
    then show ?thesis
      by (simp add: e_def acc_def acceptedTimes_def entryOf_None [of rl key, OF assms(1)] emptyRateEntry_def)
  next
    case False
    then have "last ts \<in> set ts" by simp
    with assms(3) have le: "last ts \<le> t" by blast
    have "short e = filter (\<lambda>u. last ts - u < RATE_SHORT_WINDOW) acc"
      unfolding e_def acc_def by (rule short_window_fresh [of rl key ts, OF assms(1,2) False])
    then show ?thesis
      unfolding filter_filter using le by (simp add: filter_filter) (intro filter_cong, auto)
  qed
  show ?thesis
    unfolding check_result acc_def [symmetric] e_def [symmetric]
    by (simp add: keyPasses_def Let_def pruneEntry_def e_def [symmetric] young) blast
qed

lemma tick_keeps_entry:
  "maintenanceTick rl now key \<noteq> None \<Longrightarrow>
   burstStrikes (entryOf (maintenanceTick rl now) key) = burstStrikes (entryOf rl key)
   \<and> blockedUntil (entryOf (maintenanceTick rl now) key) = blockedUntil (entryOf rl key)"
  by (auto simp: maintenanceTick_def entryOf_alt Let_def pruneEntry_def split: option.splits if_splits)

lemma quiet_keeps_strikes:
  "quietRun rl key evs \<Longrightarrow>
   burstStrikes (entryOf (snd (runEvents rl evs)) key) = burstStrikes (entryOf rl key)
   \<and> blockedUntil (entryOf (snd (runEvents rl evs)) key) = blockedUntil (entryOf rl key)"
proof (induction evs arbitrary: rl)
  case Nil
  show ?case by simp
next
  case (Cons ev evs)
  show ?case
  proof (cases ev)
    case (Check ks now)
    define rl1 where "rl1 = snd (checkRateLimitKeys rl ks now)"
    from Cons.prems have ok: "fst (checkRateLimitKeys rl ks now)" and rest: "quietRun rl1 key evs"
      unfolding Check rl1_def by simp_all
    have keep: "burstStrikes (entryOf rl1 key) = burstStrikes (entryOf rl key)
        \<and> blockedUntil (entryOf rl1 key) = blockedUntil (entryOf rl key)"
      unfolding rl1_def check_pass_entry [OF ok] by (simp add: pushTimes_def pruneEntry_def)
    from Cons.IH [OF rest] show ?thesis
      unfolding Check runEvents_Check rl1_def [symmetric] by (simp add: keep)
  next
    case (Tick now)
    define rl1 where "rl1 = maintenanceTick rl now"
    from Cons.prems have kept: "maintenanceTick rl now key \<noteq> None" and rest: "quietRun rl1 key evs"
      unfolding Tick rl1_def by simp_all
    note keep = tick_keeps_entry [OF kept, folded rl1_def]
    from Cons.IH [OF rest] show ?thesis
      by (simp add: Tick keep rl1_def [symmetric])
  qed
qed

lemma accumulate_through_quiet_runs:
  assumes "burstStrikes (entryOf rl0 key) = 0"
    and "rejectedByShort rl0 ks1 key n1"
    and "quietRun (snd (checkRateLimitKeys rl0 ks1 n1)) key evs1"
    and "rl1 = snd (runEvents (snd (checkRateLimitKeys rl0 ks1 n1)) evs1)"
    and "rejectedByShort rl1 ks2 key n2"
    and "quietRun (snd (checkRateLimitKeys rl1 ks2 n2)) key evs2"
    and "rl2 = snd (runEvents (snd (checkRateLimitKeys rl1 ks2 n2)) evs2)"
    and "rejectedByShort rl2 ks3 key n3"
  shows "blockedUntil (entryOf (snd (checkRateLimitKeys rl2 ks3 n3)) key) = n3 + BURST_COOLDOWN
       \<and> burstStrikes (entryOf (snd (checkRateLimitKeys rl2 ks3 n3)) key) = 0"
proof -
  have "burstStrikes (entryOf (snd (checkRateLimitKeys rl0 ks1 n1)) key) = 1"
    using strike_step(3) [OF assms(2)] assms(1) by (simp add: BURST_STRIKE_THRESHOLD_def)
  then have b1: "burstStrikes (entryOf rl1 key) = 1"
    using quiet_keeps_strikes [OF assms(3)] by (simp add: assms(4))
  have "burstStrikes (entryOf (snd (checkRateLimitKeys rl1 ks2 n2)) key) = 2"
    using strike_step(3) [OF assms(5)] b1 by (simp add: BURST_STRIKE_THRESHOLD_def)
  then have b2: "burstStrikes (entryOf rl2 key) = 2"
    using quiet_keeps_strikes [OF assms(6)] by (simp add: assms(7))
  show ?thesis
    using strike_step(2) [OF assms(8)] b2 by (simp add: BURST_STRIKE_THRESHOLD_def)
qed

lemma tick_deletes_entry:
  assumes "rl key = Some e"
    and "short (pruneEntry e now) = []" "medium (pruneEntry e now) = []" "daily (pruneEntry e now) = []"
    and "blockedUntil e < now"
  shows "maintenanceTick rl now key = None" and "burstStrikes (entryOf (maintenanceTick rl now) key) = 0"
  using assms by (simp_all add: maintenanceTick_def entryOf_alt Let_def emptyRateEntry_def pruneEntry_def)

lemma stepped_clock:
  "fst (runOne emptyRateEntry [0, 1, 2, 3, 4, 10004, 5, 6, 7, 8])
     = [True, True, True, True, True, True, True, True, True, True]"
  by (simp add: checkOne_def checkEntry_def pruneEntry_def pushNow_def emptyRateEntry_def Let_def
      RATE_SHORT_WINDOW_def RATE_SHORT_MAX_def RATE_MEDIUM_MAX_def RATE_MEDIUM_WINDOW_def
      RATE_DAILY_MAX_def RATE_DAILY_WINDOW_def BURST_STRIKE_THRESHOLD_def)

subsection \<open>Sliding window\<close>

lemma six_checks_entry:
  "snd (runOne emptyRateEntry [0, 1000, 2000, 3000, 4000, 9999]) =
     \<lparr>short = [0, 1000, 2000, 3000, 4000], medium = [0, 1000, 2000, 3000, 4000],
      daily = [0, 1000, 2000, 3000, 4000], burstStrikes = 1, blockedUntil = 0\<rparr>"
  by (simp add: checkOne_def checkEntry_def pruneEntry_def pushNow_def emptyRateEntry_def Let_def
      RATE_SHORT_WINDOW_def RATE_SHORT_MAX_def RATE_MEDIUM_MAX_def RATE_MEDIUM_WINDOW_def
      RATE_DAILY_MAX_def RATE_DAILY_WINDOW_def BURST_STRIKE_THRESHOLD_def)

lemma idle_tick_keeps:
  "maintenanceTick (Map.empty(''k'' \<mapsto> fullShort 1 0)) 9000 = Map.empty(''k'' \<mapsto> fullShort 1 0)"
  by (rule ext) (simp add: maintenanceTick_def rate_eval)

lemma late_tick_deletes:
  "maintenanceTick (Map.empty(''k'' \<mapsto> fullShort 1 0)) 86400005 = Map.empty"
  by (rule ext) (simp add: maintenanceTick_def rate_eval)

text \<open>
  Claim C2, as amended.  A key with no history (\<open>rl key = None\<close>) is checked alone at the
  non-decreasing clock readings \<open>ts\<close>.  Then every half-open span of ten seconds
  \<open>[s, s + 10000)\<close> holds at most five accepted events; when six checks at readings from
  \<open>0\<close> on fall inside one such span, the first five are accepted and the sixth is rejected;
  after the checks, the short window of the key holds exactly the accepted timestamps
  younger than ten seconds at the last check; and a further check at a reading \<open>t\<close> not
  before them is accepted exactly when fewer than five accepted timestamps are younger than
  ten seconds at \<open>t\<close>, the key is not blocked, and the medium and the daily window, pruned
  at \<open>t\<close>, are below their capacities.
\<close>

theorem short_window_five_per_ten_seconds:
  assumes "rl key = None" and "sorted ts"
  shows "(\<forall>s. length (filter (\<lambda>u. s \<le> u \<and> u < s + RATE_SHORT_WINDOW)
                 (acceptedTimes ts (fst (runChecks rl key ts)))) \<le> RATE_SHORT_MAX)
       \<and> (\<forall>t1 t2 t3 t4 t5 t6.
             ts = [t1, t2, t3, t4, t5, t6] \<and> 0 \<le> t1 \<and> t6 - t1 < RATE_SHORT_WINDOW \<longrightarrow>
             fst (runChecks rl key ts) = [True, True, True, True, True, False])
       \<and> (ts \<noteq> [] \<longrightarrow>
             short (entryOf (snd (runChecks rl key ts)) key) =
               filter (\<lambda>u. last ts - u < RATE_SHORT_WINDOW) (acceptedTimes ts (fst (runChecks rl key ts))))
       \<and> (\<forall>t. (\<forall>u\<in>set ts. u \<le> t) \<longrightarrow>
             (fst (checkRateLimitKeys (snd (runChecks rl key ts)) [key] t) \<longleftrightarrow>
                length (filter (\<lambda>u. t - u < RATE_SHORT_WINDOW) (acceptedTimes ts (fst (runChecks rl key ts))))
                  < RATE_SHORT_MAX
                \<and> \<not> blockedUntil (entryOf (snd (runChecks rl key ts)) key) > t
                \<and> length (filter (\<lambda>u. t - u < RATE_MEDIUM_WINDOW)
                            (medium (entryOf (snd (runChecks rl key ts)) key))) < RATE_MEDIUM_MAX
                \<and> length (filter (\<lambda>u. t - u < RATE_DAILY_WINDOW)
                            (daily (entryOf (snd (runChecks rl key ts)) key))) < RATE_DAILY_MAX))"
proof (intro conjI allI impI)
  fix s
  show "length (filter (\<lambda>u. s \<le> u \<and> u < s + RATE_SHORT_WINDOW)
          (acceptedTimes ts (fst (runChecks rl key ts)))) \<le> RATE_SHORT_MAX"
    using assms by (rule span_bound_fresh [of rl key ts s])
next
  fix t1 t2 t3 t4 t5 t6 :: int
  assume a: "ts = [t1, t2, t3, t4, t5, t6] \<and> 0 \<le> t1 \<and> t6 - t1 < RATE_SHORT_WINDOW"
  with assms(2) have "t1 \<le> t2" "t2 \<le> t3" "t3 \<le> t4" "t4 \<le> t5" "t5 \<le> t6"
    by simp_all
  with a have "fst (runOne emptyRateEntry [t1, t2, t3, t4, t5, t6]) = [True, True, True, True, True, False]"
    by (intro six_calls) simp_all
  with a show "fst (runChecks rl key ts) = [True, True, True, True, True, False]"
    by (simp only: runChecks_runOne entryOf_None [of rl key, OF assms(1)])
next
  assume "ts \<noteq> []"
  with assms show "short (entryOf (snd (runChecks rl key ts)) key) =
               filter (\<lambda>u. last ts - u < RATE_SHORT_WINDOW) (acceptedTimes ts (fst (runChecks rl key ts)))"
    by (rule short_window_fresh [of rl key ts])
next
  fix t
  assume "\<forall>u\<in>set ts. u \<le> t"
  with assms show "fst (checkRateLimitKeys (snd (runChecks rl key ts)) [key] t) \<longleftrightarrow>
                length (filter (\<lambda>u. t - u < RATE_SHORT_WINDOW) (acceptedTimes ts (fst (runChecks rl key ts))))
                  < RATE_SHORT_MAX
                \<and> \<not> blockedUntil (entryOf (snd (runChecks rl key ts)) key) > t
                \<and> length (filter (\<lambda>u. t - u < RATE_MEDIUM_WINDOW)
                            (medium (entryOf (snd (runChecks rl key ts)) key))) < RATE_MEDIUM_MAX
                \<and> length (filter (\<lambda>u. t - u < RATE_DAILY_WINDOW)
                            (daily (entryOf (snd (runChecks rl key ts)) key))) < RATE_DAILY_MAX"
    by (rule next_check_fresh [of rl key ts t])
qed

theorem short_window_five_per_ten_seconds_witness:
  "Map.empty ''site:shop:ip:10.0.0.1'' = (None :: rate_entry option)
   \<and> sorted [0, 1000, 2000, 3000, 4000, 9999 :: int]
   \<and> fst (runChecks Map.empty ''site:shop:ip:10.0.0.1'' [0, 1000, 2000, 3000, 4000, 9999])
       = [True, True, True, True, True, False]
   \<and> short (entryOf (snd (runChecks Map.empty ''site:shop:ip:10.0.0.1'' [0, 1000, 2000, 3000, 4000, 9999]))
              ''site:shop:ip:10.0.0.1'') = [0, 1000, 2000, 3000, 4000]
   \<and> fst (checkRateLimitKeys
            (snd (runChecks Map.empty ''site:shop:ip:10.0.0.1'' [0, 1000, 2000, 3000, 4000, 9999]))
            [''site:shop:ip:10.0.0.1''] 10000)"
proof -
  let ?key = "''site:shop:ip:10.0.0.1''"
  let ?ts = "[0, 1000, 2000, 3000, 4000, 9999 :: int]"
  have fresh: "Map.empty ?key = (None :: rate_entry option)" and srt: "sorted ?ts"
    by simp_all
  note inst = short_window_five_per_ten_seconds [of Map.empty ?key ?ts, OF refl srt]
  have res: "fst (runChecks Map.empty ?key ?ts) = [True, True, True, True, True, False]"
    using inst [THEN conjunct2, THEN conjunct1, rule_format, of 0 1000 2000 3000 4000 9999]
    by (simp add: RATE_SHORT_WINDOW_def del: runChecks.simps)
  have acc: "acceptedTimes ?ts (fst (runChecks Map.empty ?key ?ts)) = [0, 1000, 2000, 3000, 4000]"
    unfolding res by (simp add: acceptedTimes_def)
  have win: "short (entryOf (snd (runChecks Map.empty ?key ?ts)) ?key) = [0, 1000, 2000, 3000, 4000]"
    using inst [THEN conjunct2, THEN conjunct2, THEN conjunct1] unfolding acc
    by (simp add: RATE_SHORT_WINDOW_def del: runChecks.simps)
  have e: "entryOf (snd (runChecks Map.empty ?key ?ts)) ?key =
     \<lparr>short = [0, 1000, 2000, 3000, 4000], medium = [0, 1000, 2000, 3000, 4000],
      daily = [0, 1000, 2000, 3000, 4000], burstStrikes = 1, blockedUntil = 0\<rparr>"
    by (simp only: runChecks_entry entryOf_None [of Map.empty ?key, OF refl] six_checks_entry)
  have again: "fst (checkRateLimitKeys (snd (runChecks Map.empty ?key ?ts)) [?key] 10000)"
    using inst [THEN conjunct2, THEN conjunct2, THEN conjunct2, THEN spec, of 10000]
    unfolding acc e
    by (simp add: RATE_SHORT_WINDOW_def RATE_SHORT_MAX_def RATE_MEDIUM_MAX_def RATE_MEDIUM_WINDOW_def
        RATE_DAILY_MAX_def RATE_DAILY_WINDOW_def del: runChecks.simps)
  from fresh srt res win again show ?thesis by blast
qed

text \<open>
  The claim as the specification words it is about any sequence of calls.  When the clock is
  set back between two calls the bound fails: with the readings
  \<open>0, 1, 2, 3, 4, 10004, 5, 6, 7, 8\<close> the check at \<open>10004\<close> prunes the five timestamps of the
  short window for good, all ten checks are accepted, and nine of the accepted timestamps
  lie in the span \<open>[0, 10000)\<close>.
\<close>

theorem short_window_five_per_ten_seconds_counterexample:
  "fst (runChecks Map.empty ''site:shop:ip:10.0.0.1'' [0, 1, 2, 3, 4, 10004, 5, 6, 7, 8])
     = [True, True, True, True, True, True, True, True, True, True]
   \<and> filter (\<lambda>u. 0 \<le> u \<and> u < 0 + RATE_SHORT_WINDOW)
       (acceptedTimes [0, 1, 2, 3, 4, 10004, 5, 6, 7, 8]
          (fst (runChecks Map.empty ''site:shop:ip:10.0.0.1'' [0, 1, 2, 3, 4, 10004, 5, 6, 7, 8])))
     = [0, 1, 2, 3, 4, 5, 6, 7, 8]"
proof -
  have res: "fst (runChecks Map.empty ''site:shop:ip:10.0.0.1'' [0, 1, 2, 3, 4, 10004, 5, 6, 7, 8])
     = [True, True, True, True, True, True, True, True, True, True]"
    by (simp only: runChecks_runOne entryOf_None [of Map.empty "''site:shop:ip:10.0.0.1''", OF refl]
        stepped_clock)
  show ?thesis
    unfolding res by (simp add: acceptedTimes_def RATE_SHORT_WINDOW_def)
qed


subsection \<open>All-or-nothing recording\<close>

text \<open>
  Claim C3.  \<open>keyPasses\<close> says that a key, after pruning at the current time, is outside a
  block and below capacity in its three windows.  If every key of the call passes, the call
  returns \<open>true\<close>, every key of the call holds its pruned windows followed by the current
  timestamp (once per occurrence of the key in the list), and no other key changes.  If some
  key does not pass, the call returns \<open>false\<close> and the windows of every key are either
  unchanged or only pruned: no window gains the event.
\<close>

theorem checkRateLimitKeys_all_or_nothing:
  "(if \<forall>key\<in>set keys. keyPasses rl key now
    then fst (checkRateLimitKeys rl keys now) = True
       \<and> (\<forall>key\<in>set keys. snd (checkRateLimitKeys rl keys now) key =
             Some (pushTimes (pruneEntry (entryOf rl key) now) (count_list keys key) now))
       \<and> (\<forall>key. key \<notin> set keys \<longrightarrow> snd (checkRateLimitKeys rl keys now) key = rl key)
    else fst (checkRateLimitKeys rl keys now) = False
       \<and> (\<forall>key. windows (entryOf (snd (checkRateLimitKeys rl keys now)) key) = windows (entryOf rl key)
               \<or> windows (entryOf (snd (checkRateLimitKeys rl keys now)) key)
                   = windows (pruneEntry (entryOf rl key) now)))"
  by (rule check_outcome)

theorem checkRateLimitKeys_all_or_nothing_witness:
  "keyPasses Map.empty ''user'' 7 \<and> keyPasses Map.empty ''ip'' 7
   \<and> fst (checkRateLimitKeys Map.empty [''user'', ''ip''] 7) = True
   \<and> snd (checkRateLimitKeys Map.empty [''user'', ''ip''] 7) ''ip''
       = Some \<lparr>short = [7], medium = [7], daily = [7], burstStrikes = 0, blockedUntil = 0\<rparr>"
  using checkRateLimitKeys_all_or_nothing [of "[''user'', ''ip'']" Map.empty 7]
  by (simp add: keyPasses_def entryOf_alt emptyRateEntry_def pruneEntry_def pushTimes_def
      RATE_SHORT_MAX_def RATE_MEDIUM_MAX_def RATE_DAILY_MAX_def)

subsection \<open>Burst block\<close>

text \<open>
  Claim C4.  \<open>rejectedByShort rl ks key n\<close> says that the check of the keys \<open>ks\<close> at time \<open>n\<close>
  fails at \<open>key\<close> because its short window is at capacity.  After three such rejections in a
  row, starting from a non-negative strike counter, one of them has set
  \<open>blockedUntil = n + 60000\<close> and reset the counter; from a counter of \<open>0\<close> it is the third one.
  While a block is active, that is for every later check or maintenance tick before
  \<open>blockedUntil\<close>, every check whose keys include \<open>key\<close> fails, whatever its windows hold, and
  the block stays as it is.
\<close>

theorem burst_block_after_three_rejections:
  assumes "0 \<le> burstStrikes (entryOf rl0 key)"
    and "rejectedByShort rl0 ks1 key n1" and "rl1 = snd (checkRateLimitKeys rl0 ks1 n1)"
    and "rejectedByShort rl1 ks2 key n2" and "rl2 = snd (checkRateLimitKeys rl1 ks2 n2)"
    and "rejectedByShort rl2 ks3 key n3" and "rl3 = snd (checkRateLimitKeys rl2 ks3 n3)"
  shows "(\<exists>(n, rl)\<in>set [(n1, rl1), (n2, rl2), (n3, rl3)].
            blockedUntil (entryOf rl key) = n + BURST_COOLDOWN \<and> burstStrikes (entryOf rl key) = 0)
       \<and> (burstStrikes (entryOf rl0 key) = 0 \<longrightarrow>
            blockedUntil (entryOf rl3 key) = n3 + BURST_COOLDOWN \<and> burstStrikes (entryOf rl3 key) = 0)
       \<and> (\<forall>rl evs. (\<forall>ev\<in>set evs. eventTime ev < blockedUntil (entryOf rl key)) \<longrightarrow>
            (\<forall>(ks, ok)\<in>set (fst (runEvents rl evs)). key \<in> set ks \<longrightarrow> \<not> ok)
            \<and> blockedUntil (entryOf (snd (runEvents rl evs)) key) = blockedUntil (entryOf rl key))"
  using three_strikes [OF assms] block_persists [of _ _ key] by blast

theorem burst_block_after_three_rejections_witness:
  "0 \<le> burstStrikes (entryOf (Map.empty(''k'' \<mapsto> fullShort 0 0)) ''k'')
   \<and> rejectedByShort (Map.empty(''k'' \<mapsto> fullShort 0 0)) [''k''] ''k'' 5
   \<and> rejectedByShort (Map.empty(''k'' \<mapsto> fullShort 1 0)) [''k''] ''k'' 6
   \<and> rejectedByShort (Map.empty(''k'' \<mapsto> fullShort 2 0)) [''k''] ''k'' 7
   \<and> blockedUntil (entryOf (Map.empty(''k'' \<mapsto> fullShort 0 60007)) ''k'') = 7 + BURST_COOLDOWN
   \<and> fst (runEvents (Map.empty(''k'' \<mapsto> fullShort 0 60007)) [Tick 60000, Check [''k''] 60006])
       = [([''k''], False)]"
proof -
  let ?t = "\<lambda>s u. Map.empty(''k'' \<mapsto> fullShort s u)"
  have h0: "0 \<le> burstStrikes (entryOf (?t 0 0) ''k'')"
    by (simp add: rate_eval)
  have h1: "rejectedByShort (?t 0 0) [''k''] ''k'' 5"
    by (simp add: rate_eval)
  have c1: "?t 1 0 = snd (checkRateLimitKeys (?t 0 0) [''k''] 5)"
    by (simp add: rate_eval)
  have h2: "rejectedByShort (?t 1 0) [''k''] ''k'' 6"
    by (simp add: rate_eval)
  have c2: "?t 2 0 = snd (checkRateLimitKeys (?t 1 0) [''k''] 6)"
    by (simp add: rate_eval)
  have h3: "rejectedByShort (?t 2 0) [''k''] ''k'' 7"
    by (simp add: rate_eval)
  have c3: "?t 0 60007 = snd (checkRateLimitKeys (?t 2 0) [''k''] 7)"
    by (simp add: rate_eval)
  have ev: "\<forall>ev\<in>set [Tick 60000, Check [''k''] 60006].
              eventTime ev < blockedUntil (entryOf (?t 0 60007) ''k'')"
    by (simp add: rate_eval)
  note inst = burst_block_after_three_rejections [OF h0 h1 c1 h2 c2 h3 c3]
  from inst have b: "blockedUntil (entryOf (?t 0 60007) ''k'') = 7 + BURST_COOLDOWN"
    by (simp add: rate_eval)
  from inst ev have
    "\<forall>(ks, ok)\<in>set (fst (runEvents (?t 0 60007) [Tick 60000, Check [''k''] 60006])).
        ''k'' \<in> set ks \<longrightarrow> \<not> ok"
    by blast
  then have r: "fst (runEvents (?t 0 60007) [Tick 60000, Check [''k''] 60006]) = [([''k''], False)]"
    by (simp split: prod.splits)
  from h0 h1 h2 h3 b r show ?thesis by blast
qed

subsection \<open>A successful check leaves strikes and block alone\<close>

text \<open>
  Claim C10, as amended.  A check that returns \<open>true\<close> leaves \<open>burstStrikes\<close> and
  \<open>blockedUntil\<close> of every key as they were and only rewrites the three windows of the
  checked keys: pruned, then the current timestamp appended.  So strikes accumulate across
  successful checks: three short-window rejections go from a counter of \<open>0\<close> to the block
  \<open>blockedUntil = n3 + 60000\<close>, with any number of successful checks and maintenance ticks
  between them, as long as the key still has its entry after each of these ticks.  A tick
  deletes the entry of a key, and with it the strikes, when its three windows are empty
  after pruning and it is not blocked; the key then starts again from a counter of \<open>0\<close>.
\<close>

theorem successful_check_keeps_strikes:
  "(fst (checkRateLimitKeys rl keys now) \<longrightarrow>
      (\<forall>k. burstStrikes (entryOf (snd (checkRateLimitKeys rl keys now)) k) = burstStrikes (entryOf rl k)
         \<and> blockedUntil (entryOf (snd (checkRateLimitKeys rl keys now)) k) = blockedUntil (entryOf rl k))
      \<and> (\<forall>k\<in>set keys. windows (entryOf (snd (checkRateLimitKeys rl keys now)) k)
             = windows (pushTimes (pruneEntry (entryOf rl k) now) (count_list keys k) now)))
   \<and> (let after1 = snd (checkRateLimitKeys rl0 ks1 n1);
          rl1 = snd (runEvents after1 evs1);
          after2 = snd (checkRateLimitKeys rl1 ks2 n2);
          rl2 = snd (runEvents after2 evs2);
          after3 = snd (checkRateLimitKeys rl2 ks3 n3)
      in burstStrikes (entryOf rl0 key) = 0
         \<and> rejectedByShort rl0 ks1 key n1
         \<and> quietRun after1 key evs1
         \<and> rejectedByShort rl1 ks2 key n2
         \<and> quietRun after2 key evs2
         \<and> rejectedByShort rl2 ks3 key n3
         \<longrightarrow> blockedUntil (entryOf after3 key) = n3 + BURST_COOLDOWN
           \<and> burstStrikes (entryOf after3 key) = 0)
   \<and> (rl key = Some e
      \<and> short (pruneEntry e now) = [] \<and> medium (pruneEntry e now) = [] \<and> daily (pruneEntry e now) = []
      \<and> blockedUntil e < now
      \<longrightarrow> maintenanceTick rl now key = None \<and> burstStrikes (entryOf (maintenanceTick rl now) key) = 0)"
proof -
  have frame: "fst (checkRateLimitKeys rl keys now) \<longrightarrow>
      (\<forall>k. burstStrikes (entryOf (snd (checkRateLimitKeys rl keys now)) k) = burstStrikes (entryOf rl k)
         \<and> blockedUntil (entryOf (snd (checkRateLimitKeys rl keys now)) k) = blockedUntil (entryOf rl k))
      \<and> (\<forall>k\<in>set keys. windows (entryOf (snd (checkRateLimitKeys rl keys now)) k)
             = windows (pushTimes (pruneEntry (entryOf rl k) now) (count_list keys k) now))"
  proof
    assume ok: "fst (checkRateLimitKeys rl keys now)"
    show "(\<forall>k. burstStrikes (entryOf (snd (checkRateLimitKeys rl keys now)) k) = burstStrikes (entryOf rl k)
         \<and> blockedUntil (entryOf (snd (checkRateLimitKeys rl keys now)) k) = blockedUntil (entryOf rl k))
      \<and> (\<forall>k\<in>set keys. windows (entryOf (snd (checkRateLimitKeys rl keys now)) k)
             = windows (pushTimes (pruneEntry (entryOf rl k) now) (count_list keys k) now))"
      unfolding check_pass_entry [OF ok] by (simp add: pushTimes_def pruneEntry_def)
  qed
  have deleted: "rl key = Some e
      \<and> short (pruneEntry e now) = [] \<and> medium (pruneEntry e now) = [] \<and> daily (pruneEntry e now) = []
      \<and> blockedUntil e < now
      \<longrightarrow> maintenanceTick rl now key = None \<and> burstStrikes (entryOf (maintenanceTick rl now) key) = 0"
    using tick_deletes_entry [of rl key e now] by blast
  show ?thesis
    unfolding Let_def
    using frame deleted
      accumulate_through_quiet_runs [OF _ _ _ refl _ _ refl, of rl0 key ks1 n1 evs1 ks2 n2 evs2 ks3 n3]
    by blast
qed

theorem successful_check_keeps_strikes_witness:
  "fst (checkRateLimitKeys (Map.empty(''k'' \<mapsto> fullShort 2 0)) [''k''] 10000)
   \<and> burstStrikes (entryOf (snd (checkRateLimitKeys (Map.empty(''k'' \<mapsto> fullShort 2 0)) [''k''] 10000)) ''k'') = 2
   \<and> quietRun (Map.empty(''k'' \<mapsto> fullShort 1 0)) ''k'' [Tick 9000, Check [''k''] 10000]
   \<and> fst (runEvents (Map.empty(''k'' \<mapsto> fullShort 0 0))
        [Check [''k''] 5, Tick 9000, Check [''k''] 10000, Check [''k''] 10000, Check [''k''] 10001,
         Check [''k''] 10001])
      = [([''k''], False), ([''k''], True), ([''k''], False), ([''k''], True), ([''k''], False)]
   \<and> blockedUntil (entryOf (snd (runEvents (Map.empty(''k'' \<mapsto> fullShort 0 0))
        [Check [''k''] 5, Tick 9000, Check [''k''] 10000, Check [''k''] 10000, Check [''k''] 10001,
         Check [''k''] 10001])) ''k'')
      = 10001 + BURST_COOLDOWN
   \<and> maintenanceTick (Map.empty(''k'' \<mapsto> fullShort 1 0)) 86400005 ''k'' = None"
proof -
  let ?rl0 = "Map.empty(''k'' \<mapsto> fullShort 0 0)"
  let ?a1 = "Map.empty(''k'' \<mapsto> fullShort 1 0)"
  let ?e1 = "\<lparr>short = [1, 2, 3, 4, 10000], medium = [0, 1, 2, 3, 4, 10000], daily = [0, 1, 2, 3, 4, 10000],
              burstStrikes = 1, blockedUntil = 0\<rparr>"
  let ?e2 = "\<lparr>short = [2, 3, 4, 10000, 10001], medium = [0, 1, 2, 3, 4, 10000, 10001],
              daily = [0, 1, 2, 3, 4, 10000, 10001], burstStrikes = 2, blockedUntil = 0\<rparr>"
  let ?rl1 = "Map.empty(''k'' \<mapsto> ?e1)"
  let ?a2 = "Map.empty(''k'' \<mapsto>
             \<lparr>short = [1, 2, 3, 4, 10000], medium = [0, 1, 2, 3, 4, 10000], daily = [0, 1, 2, 3, 4, 10000],
              burstStrikes = 2, blockedUntil = 0\<rparr>)"
  let ?rl2 = "Map.empty(''k'' \<mapsto> ?e2)"
  have c1: "checkRateLimitKeys ?rl0 [''k''] 5 = (False, ?a1)"
    by (simp add: rate_eval)
  have s1: "checkRateLimitKeys ?a1 [''k''] 10000 = (True, ?rl1)"
    by (simp add: rate_eval)
  have c2: "checkRateLimitKeys ?rl1 [''k''] 10000 = (False, ?a2)"
    by (simp add: rate_eval)
  have s2: "checkRateLimitKeys ?a2 [''k''] 10001 = (True, ?rl2)"
    by (simp add: rate_eval)
  have h1: "rejectedByShort ?rl0 [''k''] ''k'' 5"
    by (simp add: rate_eval)
  have h2: "rejectedByShort ?rl1 [''k''] ''k'' 10000"
    by (simp add: rate_eval)
  have h3: "rejectedByShort ?rl2 [''k''] ''k'' 10001"
    by (simp add: rate_eval)
  have f: "fst (checkRateLimitKeys (Map.empty(''k'' \<mapsto> fullShort 2 0)) [''k''] 10000)"
    by (simp add: rate_eval)
  have q1: "quietRun ?a1 ''k'' [Tick 9000, Check [''k''] 10000]"
    by (simp add: idle_tick_keeps s1)
  have q2: "quietRun ?a2 ''k'' [Check [''k''] 10001]"
    by (simp add: s2)
  note inst = successful_check_keeps_strikes
    [of "Map.empty(''k'' \<mapsto> fullShort 2 0)" "[''k'']" 10000 ?rl0 "[''k'']" 5 "[Tick 9000, Check [''k''] 10000]"
        "[''k'']" 10000 "[Check [''k''] 10001]" "[''k'']" 10001 "''k''"]
  have "burstStrikes (entryOf (snd (checkRateLimitKeys (Map.empty(''k'' \<mapsto> fullShort 2 0)) [''k''] 10000)) ''k'')
        = burstStrikes (entryOf (Map.empty(''k'' \<mapsto> fullShort 2 0)) ''k'')"
    using inst [THEN conjunct1, THEN mp, OF f, THEN conjunct1, THEN spec, of "''k''"] by (rule conjunct1)
  then have g1:
    "burstStrikes (entryOf (snd (checkRateLimitKeys (Map.empty(''k'' \<mapsto> fullShort 2 0)) [''k''] 10000)) ''k'') = 2"
    by (simp add: entryOf_alt fullShort_def)
  have a1: "snd (checkRateLimitKeys ?rl0 [''k''] 5) = ?a1"
    by (simp add: c1)
  have r1: "runEvents ?a1 [Tick 9000, Check [''k''] 10000] = ([([''k''], True)], ?rl1)"
    by (simp add: idle_tick_keeps s1)
  have a2: "snd (checkRateLimitKeys ?rl1 [''k''] 10000) = ?a2"
    by (simp add: c2)
  have r2: "runEvents ?a2 [Check [''k''] 10001] = ([([''k''], True)], ?rl2)"
    by (simp add: s2)
  have run: "runEvents ?rl0
        [Check [''k''] 5, Tick 9000, Check [''k''] 10000, Check [''k''] 10000, Check [''k''] 10001,
         Check [''k''] 10001]
      = ([([''k''], False), ([''k''], True), ([''k''], False), ([''k''], True),
          ([''k''], fst (checkRateLimitKeys ?rl2 [''k''] 10001))],
         snd (checkRateLimitKeys ?rl2 [''k''] 10001))"
    by (simp add: c1 idle_tick_keeps s1 c2 s2 split: prod.splits)
  have h0: "burstStrikes (entryOf ?rl0 ''k'') = 0"
    by (simp add: entryOf_alt fullShort_def)
  note acc = inst [THEN conjunct2, THEN conjunct1, unfolded Let_def a1 r1 a2 r2 fst_conv snd_conv]
  from acc h0 h1 q1 h2 q2 h3 have g2:
    "blockedUntil (entryOf (snd (checkRateLimitKeys ?rl2 [''k''] 10001)) ''k'') = 10001 + BURST_COOLDOWN"
    by simp
  have g3: "\<not> fst (checkRateLimitKeys ?rl2 [''k''] 10001)"
    using h3 by (simp add: rate_eval)
  have idle: "?a1 ''k'' = Some (fullShort 1 0)
      \<and> short (pruneEntry (fullShort 1 0) 86400005) = [] \<and> medium (pruneEntry (fullShort 1 0) 86400005) = []
      \<and> daily (pruneEntry (fullShort 1 0) 86400005) = [] \<and> blockedUntil (fullShort 1 0) < 86400005"
    by (simp add: rate_eval)
  have g4: "maintenanceTick ?a1 86400005 ''k'' = None"
    using successful_check_keeps_strikes
      [where rl = ?a1 and now = 86400005 and key = "''k''" and e = "fullShort 1 0",
       THEN conjunct2, THEN conjunct2, THEN mp, OF idle]
    by (rule conjunct1)
  from f g1 q1 g2 g3 g4 show ?thesis
    unfolding run by simp
qed

text \<open>
  The claim as the specification words it has a successful check only append to the
  windows.  The check at \<open>10000\<close> of a key whose short window holds \<open>0, 1, 2, 3, 4\<close> succeeds
  and leaves \<open>1, 2, 3, 4, 10000\<close>: the timestamp \<open>0\<close> is pruned.  And three short-window
  rejections with successful checks between them do not always reach the block: when a
  maintenance tick finds the entry idle after the first rejection it deletes it, the two
  later rejections count from \<open>0\<close> again, and the key ends with two strikes and no block.
\<close>

theorem successful_check_keeps_strikes_counterexample:
  "fst (checkRateLimitKeys (Map.empty(''k'' \<mapsto> fullShort 2 0)) [''k''] 10000)
   \<and> short (entryOf (Map.empty(''k'' \<mapsto> fullShort 2 0)) ''k'') = [0, 1, 2, 3, 4]
   \<and> short (entryOf (snd (checkRateLimitKeys (Map.empty(''k'' \<mapsto> fullShort 2 0)) [''k''] 10000)) ''k'')
       = [1, 2, 3, 4, 10000]
   \<and> fst (runEvents (Map.empty(''k'' \<mapsto> fullShort 0 0))
        [Check [''k''] 5, Tick 86400005,
         Check [''k''] 86400005, Check [''k''] 86400005, Check [''k''] 86400005, Check [''k''] 86400005,
         Check [''k''] 86400005, Check [''k''] 86400005,
         Check [''k''] 86410005, Check [''k''] 86410005, Check [''k''] 86410005, Check [''k''] 86410005,
         Check [''k''] 86410005, Check [''k''] 86410005])
      = [([''k''], False),
         ([''k''], True), ([''k''], True), ([''k''], True), ([''k''], True), ([''k''], True), ([''k''], False),
         ([''k''], True), ([''k''], True), ([''k''], True), ([''k''], True), ([''k''], True), ([''k''], False)]
   \<and> burstStrikes (entryOf (snd (runEvents (Map.empty(''k'' \<mapsto> fullShort 0 0))
        [Check [''k''] 5, Tick 86400005,
         Check [''k''] 86400005, Check [''k''] 86400005, Check [''k''] 86400005, Check [''k''] 86400005,
         Check [''k''] 86400005, Check [''k''] 86400005,
         Check [''k''] 86410005, Check [''k''] 86410005, Check [''k''] 86410005, Check [''k''] 86410005,
         Check [''k''] 86410005, Check [''k''] 86410005])) ''k'') = 2
   \<and> blockedUntil (entryOf (snd (runEvents (Map.empty(''k'' \<mapsto> fullShort 0 0))
        [Check [''k''] 5, Tick 86400005,
         Check [''k''] 86400005, Check [''k''] 86400005, Check [''k''] 86400005, Check [''k''] 86400005,
         Check [''k''] 86400005, Check [''k''] 86400005,
         Check [''k''] 86410005, Check [''k''] 86410005, Check [''k''] 86410005, Check [''k''] 86410005,
         Check [''k''] 86410005, Check [''k''] 86410005])) ''k'') = 0"
proof -
  have c1: "checkRateLimitKeys (Map.empty(''k'' \<mapsto> fullShort 0 0)) [''k''] 5
              = (False, Map.empty(''k'' \<mapsto> fullShort 1 0))"
    by (simp add: rate_eval)
  show ?thesis
    by (simp add: c1 late_tick_deletes) (simp add: rate_eval)
qed

section \<open>Proofs: topic bridge\<close>

lemma getVisitor_setTopicId:
  "getVisitor (setTopicId vs topic visitor) visitor =
     map_option (\<lambda>v. v\<lparr>telegram_topic_id := topic\<rparr>) (getVisitor vs visitor)"
  by (induction vs) (auto simp: getVisitor_def setTopicId_def)

lemma length_setTopicId: "length (setTopicId vs topic visitor) = length vs"
  by (simp add: setTopicId_def)

lemma createTopic_uncached:
  assumes "botReady st" and "getVisitor (visitors st) visitor = Some v"
    and "\<not> truthyId (telegram_topic_id v)"
  shows "createTopicForVisitor env st visitor siteName =
     (let title = topicName (Some v) (length (visitors st)) siteName;
          called = st\<lparr>botCalls := botCalls st @ [CreateForumTopic title]\<rparr>
      in case createForumTopic env (botCalls st) title of
           TopicCreated topicId \<Rightarrow>
             (Returns (Some topicId), called\<lparr>visitors := setTopicId (visitors st) (Some topicId) visitor\<rparr>)
         | NoThreadId \<Rightarrow> (Returns None, called)
         | CreateFailed err \<Rightarrow>
             if err = Nullish then (RejectsTypeError, called)
             else (Returns None, called\<lparr>errorLog := errorLog st @ [ErrorCreatingTopic err]\<rparr>))"
  using assms by (simp add: createTopicForVisitor_def getVisitorCount_def Let_def split: create_reply.splits)

lemma topicName_anonymous:
  assumes "auth_type v = anonymous_type"
  shows "topicName (Some v) n siteName =
     ''[Anon] '' @
       (if truthy (vname v) \<and> truthy (vemail v) then the (vname v) @ '' ('' @ the (vemail v) @ '')''
        else if truthy (vemail v) then the (vemail v)
        else if truthy (vname v) then the (vname v)
        else ''Visitor #'' @ showNat n)
       @ '' from '' @ (if siteName = [] then ''unknown'' else siteName)"
  using assms by (simp add: topicName_def Let_def)

lemma create_calls_ext:
  "\<exists>xs. botCalls (snd (createTopicForVisitor env st visitor siteName)) = botCalls st @ xs"
  by (simp add: createTopicForVisitor_def Let_def split: create_reply.splits)

lemma send_calls_ext:
  "\<exists>xs. botCalls (snd (sendToTopicId env st cont kind fileUrl topicId)) = botCalls st @ xs"
  by (simp add: sendToTopicId_def split: sum.splits send_reply.splits)

lemma recovery_calls_ext:
  "\<exists>xs. botCalls (snd (sendWithRecovery env st visitor cont kind siteName fileUrl topicId)) = botCalls st @ xs"
proof -
  obtain r1 s1 where 1: "sendToTopicId env st cont kind fileUrl topicId = (r1, s1)"
    by (cases "sendToTopicId env st cont kind fileUrl topicId")
  from send_calls_ext [of env st cont kind fileUrl topicId] 1
  obtain xs where x: "botCalls s1 = botCalls st @ xs" by auto
  obtain r2 s2 where 2: "createTopicForVisitor env (clearVisitorTopic s1 visitor) visitor siteName = (r2, s2)"
    by (cases "createTopicForVisitor env (clearVisitorTopic s1 visitor) visitor siteName")
  from create_calls_ext [of env "clearVisitorTopic s1 visitor" visitor siteName] 2
  obtain ys where y: "botCalls s2 = botCalls st @ xs @ ys"
    by (auto simp: clearVisitorTopic_def x)
  show ?thesis
  proof (cases r2)
    case RejectsTypeError
    show ?thesis
      by (cases r1) (simp_all add: sendWithRecovery_def 1 2 x y RejectsTypeError Let_def)
  next
    case (Returns replacement)
    obtain r3 s3 where 3: "sendToTopicId env s2 cont kind fileUrl (the replacement) = (r3, s3)"
      by (cases "sendToTopicId env s2 cont kind fileUrl (the replacement)")
    from send_calls_ext [of env s2 cont kind fileUrl "the replacement"] 3
    obtain zs where z: "botCalls s3 = botCalls st @ xs @ ys @ zs"
      by (auto simp: y)
    show ?thesis
      by (cases r1; cases r3) (simp_all add: sendWithRecovery_def 1 2 3 x y z Returns Let_def)
  qed
qed

lemma showNat_1: "showNat 1 = ''1''" "showNat (Suc 0) = ''1''"
  by (simp_all add: showNat.simps digitChar_def)

lemma outboundCall_other_topic:
  "outboundCall env cont kind fileUrl t = Inr call \<Longrightarrow> \<exists>call'. outboundCall env cont kind fileUrl r = Inr call'"
  by (auto simp: outboundCall_def split: if_splits sum.splits)

lemma sendToTopicId_call:
  assumes "botReady st" and "outboundCall env cont kind fileUrl t = Inr call"
  shows "sendToTopicId env st cont kind fileUrl t =
     ((case sendReply env (botCalls st) call of Sent \<Rightarrow> None | SendFailed e \<Rightarrow> Some e),
      st\<lparr>botCalls := botCalls st @ [call]\<rparr>)"
  using assms by (simp add: sendToTopicId_def split: send_reply.splits)

lemma recovery_after_missing_thread:
  assumes ready: "botReady st"
    and vis: "getVisitor (visitors st) visitor = Some v"
    and call: "outboundCall env cont kind fileUrl t = Inr firstCall"
    and fail: "sendReply env (botCalls st) firstCall = SendFailed err"
    and missing: "isMissingThreadError err"
    and title: "title = topicName (Some (v\<lparr>telegram_topic_id := None\<rparr>)) (getVisitorCount (visitors st)) siteName"
    and attempted: "attempted = botCalls st @ [firstCall, CreateForumTopic title]"
    and result: "result = sendWithRecovery env st visitor cont kind siteName fileUrl t"
  shows "case createForumTopic env (botCalls st @ [firstCall]) title of
           TopicCreated r \<Rightarrow>
             if r \<noteq> 0 then
               (\<exists>retry. outboundCall env cont kind fileUrl r = Inr retry
                  \<and> botCalls (snd result) = attempted @ [retry]
                  \<and> getVisitor (visitors (snd result)) visitor = Some (v\<lparr>telegram_topic_id := Some r\<rparr>)
                  \<and> (case sendReply env attempted retry of
                        Sent \<Rightarrow> fst result = Returns () \<and> errorLog (snd result) = errorLog st
                      | SendFailed e \<Rightarrow>
                          if e = Nullish
                          then fst result = RejectsTypeError \<and> errorLog (snd result) = errorLog st
                          else fst result = Returns ()
                             \<and> errorLog (snd result) = errorLog st @ [ErrorSendingToRecreatedTopic e]))
             else botCalls (snd result) = attempted \<and> fst result = Returns ()
                \<and> errorLog (snd result) = errorLog st @ [ErrorSendingToTopic err]
         | NoThreadId \<Rightarrow>
             botCalls (snd result) = attempted \<and> fst result = Returns ()
             \<and> errorLog (snd result) = errorLog st @ [ErrorSendingToTopic err]
             \<and> getVisitor (visitors (snd result)) visitor = Some (v\<lparr>telegram_topic_id := None\<rparr>)
         | CreateFailed e \<Rightarrow>
             botCalls (snd result) = attempted
             \<and> getVisitor (visitors (snd result)) visitor = Some (v\<lparr>telegram_topic_id := None\<rparr>)
             \<and> (if e = Nullish
                 then fst result = RejectsTypeError \<and> errorLog (snd result) = errorLog st
                 else fst result = Returns ()
                    \<and> errorLog (snd result) = errorLog st @ [ErrorCreatingTopic e, ErrorSendingToTopic err])"
proof -
  define st2 where "st2 = st\<lparr>botCalls := botCalls st @ [firstCall]\<rparr>"
  define st2c where "st2c = clearVisitorTopic st2 visitor"
  have s1: "sendToTopicId env st cont kind fileUrl t = (Some err, st2)"
    using sendToTopicId_call [OF ready call] fail by (simp add: st2_def)
  have notnull: "err \<noteq> Nullish"
    using missing by (cases err) simp_all
  have c_ready: "botReady st2c"
    using ready by (simp add: st2c_def st2_def clearVisitorTopic_def)
  have c_vis: "getVisitor (visitors st2c) visitor = Some (v\<lparr>telegram_topic_id := None\<rparr>)"
    using vis by (simp add: st2c_def st2_def clearVisitorTopic_def getVisitor_setTopicId)
  have c_len: "length (visitors st2c) = length (visitors st)"
    by (simp add: st2c_def st2_def clearVisitorTopic_def length_setTopicId)
  have c_calls: "botCalls st2c = botCalls st @ [firstCall]"
    by (simp add: st2c_def st2_def clearVisitorTopic_def)
  have c_log: "errorLog st2c = errorLog st"
    by (simp add: st2c_def st2_def clearVisitorTopic_def)
  have t': "topicName (Some (v\<lparr>telegram_topic_id := None\<rparr>)) (length (visitors st)) siteName = title"
    by (simp add: title getVisitorCount_def)
  have cr: "createTopicForVisitor env st2c visitor siteName =
     (case createForumTopic env (botCalls st @ [firstCall]) title of
        TopicCreated topicId \<Rightarrow>
          (Returns (Some topicId),
           st2c\<lparr>botCalls := attempted, visitors := setTopicId (visitors st2c) (Some topicId) visitor\<rparr>)
      | NoThreadId \<Rightarrow> (Returns None, st2c\<lparr>botCalls := attempted\<rparr>)
      | CreateFailed e \<Rightarrow>
          if e = Nullish then (RejectsTypeError, st2c\<lparr>botCalls := attempted\<rparr>)
          else (Returns None, st2c\<lparr>botCalls := attempted, errorLog := errorLog st @ [ErrorCreatingTopic e]\<rparr>))"
    unfolding createTopic_uncached [OF c_ready c_vis, of env siteName, simplified] c_len t' Let_def c_calls c_log
    by (simp add: attempted split: create_reply.splits)
  have fin: "result =
     (case createTopicForVisitor env st2c visitor siteName of
        (RejectsTypeError, st3) \<Rightarrow> (RejectsTypeError, st3)
      | (Returns replacementTopicId, st3) \<Rightarrow>
          if truthyId replacementTopicId then
            (case sendToTopicId env st3 cont kind fileUrl (the replacementTopicId) of
               (None, st4) \<Rightarrow> (Returns (), st4)
             | (Some retryErr, st4) \<Rightarrow>
                 if retryErr = Nullish then (RejectsTypeError, st4)
                 else (Returns (),
                       st4\<lparr>errorLog := errorLog st4 @ [ErrorSendingToRecreatedTopic retryErr]\<rparr>))
          else (Returns (), st3\<lparr>errorLog := errorLog st3 @ [ErrorSendingToTopic err]\<rparr>))"
    unfolding result sendWithRecovery_def s1 st2c_def using missing notnull by (simp add: Let_def)
  show ?thesis
  proof (cases "createForumTopic env (botCalls st @ [firstCall]) title")
    case NoThreadId
    then show ?thesis
      unfolding fin cr by (simp add: c_vis c_log)
  next
    case (CreateFailed e)
    then show ?thesis
      unfolding fin cr by (simp add: c_vis c_log)
  next
    case (TopicCreated r)
    show ?thesis
    proof (cases "r = 0")
      case True
      then show ?thesis
        unfolding fin cr TopicCreated by (simp add: c_log)
    next
      case False
      define st3 where
        "st3 = st2c\<lparr>botCalls := attempted, visitors := setTopicId (visitors st2c) (Some r) visitor\<rparr>"
      from outboundCall_other_topic [OF call, of r] obtain retry
        where retry: "outboundCall env cont kind fileUrl r = Inr retry" by blast
      have r3: "botReady st3" using c_ready by (simp add: st3_def)
      have v3: "getVisitor (visitors st3) visitor = Some (v\<lparr>telegram_topic_id := Some r\<rparr>)"
        by (simp add: st3_def getVisitor_setTopicId c_vis)
      have s3: "sendToTopicId env st3 cont kind fileUrl r =
          ((case sendReply env attempted retry of Sent \<Rightarrow> None | SendFailed e \<Rightarrow> Some e),
           st3\<lparr>botCalls := attempted @ [retry]\<rparr>)"
        using sendToTopicId_call [OF r3 retry] by (simp add: st3_def)
      have l3: "errorLog st3 = errorLog st" by (simp add: st3_def c_log)
      have "botCalls (snd result) = attempted @ [retry]
          \<and> getVisitor (visitors (snd result)) visitor = Some (v\<lparr>telegram_topic_id := Some r\<rparr>)
          \<and> (case sendReply env attempted retry of
                Sent \<Rightarrow> fst result = Returns () \<and> errorLog (snd result) = errorLog st
              | SendFailed e \<Rightarrow>
                  if e = Nullish
                  then fst result = RejectsTypeError \<and> errorLog (snd result) = errorLog st
                  else fst result = Returns ()
                     \<and> errorLog (snd result) = errorLog st @ [ErrorSendingToRecreatedTopic e])"
        unfolding fin cr TopicCreated using False
        by (simp add: st3_def [symmetric] s3 l3 v3 split: send_reply.splits)
      with retry False show ?thesis
        unfolding TopicCreated by auto
    qed
  qed
qed

lemma missing_thread_message:
  "isMissingThreadError (ErrorObject (Some ''ETELEGRAM: 400 Bad Request: message thread not found''))"
  by code_simp

lemma missing_thread_text:
  "includesStr (toLowerCase ''ETELEGRAM: 400 Bad Request: message thread not found'')
     ''message thread not found''"
  by code_simp

lemma not_missing_thread_message:
  "\<not> isMissingThreadError (ErrorObject (Some ''ETELEGRAM: 429 Too Many Requests''))"
  "\<not> isMissingThreadError (ErrorObject (Some ''Invalid media path''))"
  "\<not> isMissingThreadError (ErrorObject (Some ''Media file not found on disk''))"
  by code_simp+

lemma showNat_2: "showNat 2 = ''2''" "showNat (Suc (Suc 0)) = ''2''"
  by (simp_all add: showNat.simps digitChar_def numeral_2_eq_2)

subsection \<open>Thread titles\<close>

text \<open>
  Claim C9, as amended.  For an anonymous visitor with no cached thread,
  \<open>createTopicForVisitor\<close> asks the platform for a thread whose title begins with \<open>[Anon]\<close>,
  whether or not a name or an email is known: with a name and an email the title is
  \<open>[Anon] name (email) from site\<close>, with an email only \<open>[Anon] email from site\<close>, with a
  name only \<open>[Anon] name from site\<close>, and with neither it is \<open>[Anon] Visitor #N from site\<close>,
  where \<open>N\<close> is the number of visitor rows at that moment and an empty site name reads
  \<open>unknown\<close>.  When the platform returns a thread id, it is returned and cached on the
  visitor row.  This creation is the first call of the first outbound send.
\<close>

theorem anonymous_thread_title:
  assumes "botReady st" and "getVisitor (visitors st) visitor = Some v"
    and "auth_type v = anonymous_type" and "\<not> truthyId (telegram_topic_id v)"
  shows
    "(let label =
            (if truthy (vname v) \<and> truthy (vemail v) then the (vname v) @ '' ('' @ the (vemail v) @ '')''
             else if truthy (vemail v) then the (vemail v)
             else if truthy (vname v) then the (vname v)
             else ''Visitor #'' @ showNat (getVisitorCount (visitors st)));
          title = ''[Anon] '' @ label @ '' from '' @ (if siteName = [] then ''unknown'' else siteName)
      in
        botCalls (snd (createTopicForVisitor env st visitor siteName)) = botCalls st @ [CreateForumTopic title]
        \<and> (\<forall>topicId. createForumTopic env (botCalls st) title = TopicCreated topicId \<longrightarrow>
             fst (createTopicForVisitor env st visitor siteName) = Returns (Some topicId)
             \<and> getVisitor (visitors (snd (createTopicForVisitor env st visitor siteName))) visitor
                 = Some (v\<lparr>telegram_topic_id := Some topicId\<rparr>))
        \<and> (\<exists>rest. botCalls (snd (sendToTopic env st visitor cont kind siteName fileUrl)) =
              botCalls st @ CreateForumTopic title # rest))"
proof -
  define title where "title = topicName (Some v) (length (visitors st)) siteName"
  note c = createTopic_uncached [OF assms(1,2,4), of env siteName, unfolded Let_def, folded title_def]
  have 1: "botCalls (snd (createTopicForVisitor env st visitor siteName)) =
           botCalls st @ [CreateForumTopic title]"
    unfolding c by (simp split: create_reply.splits)
  have 2: "\<forall>topicId. createForumTopic env (botCalls st) title = TopicCreated topicId \<longrightarrow>
            fst (createTopicForVisitor env st visitor siteName) = Returns (Some topicId)
            \<and> getVisitor (visitors (snd (createTopicForVisitor env st visitor siteName))) visitor
                = Some (v\<lparr>telegram_topic_id := Some topicId\<rparr>)"
    unfolding c by (simp add: getVisitor_setTopicId assms(2))
  obtain r1 s1 where cr: "createTopicForVisitor env st visitor siteName = (r1, s1)"
    by (cases "createTopicForVisitor env st visitor siteName")
  with 1 have s1: "botCalls s1 = botCalls st @ [CreateForumTopic title]" by simp
  have 3: "\<exists>rest. botCalls (snd (sendToTopic env st visitor cont kind siteName fileUrl)) =
             botCalls st @ CreateForumTopic title # rest"
  proof (cases r1)
    case RejectsTypeError
    then show ?thesis
      using assms(1,2,4) by (simp add: sendToTopic_def cr s1)
  next
    case (Returns topicId)
    from recovery_calls_ext [of env s1 visitor cont kind siteName fileUrl "the topicId"]
    obtain xs where "botCalls (snd (sendWithRecovery env s1 visitor cont kind siteName fileUrl (the topicId)))
        = botCalls s1 @ xs" by auto
    then show ?thesis
      using assms(1,2,4) by (simp add: sendToTopic_def cr s1 Returns)
  qed
  have t: "title = ''[Anon] '' @
       (if truthy (vname v) \<and> truthy (vemail v) then the (vname v) @ '' ('' @ the (vemail v) @ '')''
        else if truthy (vemail v) then the (vemail v)
        else if truthy (vname v) then the (vname v)
        else ''Visitor #'' @ showNat (getVisitorCount (visitors st)))
       @ '' from '' @ (if siteName = [] then ''unknown'' else siteName)"
    unfolding title_def topicName_anonymous [OF assms(3)] by (simp add: getVisitorCount_def)
  from 1 2 3 show ?thesis
    unfolding Let_def t [symmetric] by blast
qed

theorem anonymous_thread_title_witness:
  "botReady anonShopState \<and> getVisitor (visitors anonShopState) ''anon-1'' = Some anonVisitor
   \<and> auth_type anonVisitor = anonymous_type
   \<and> botCalls (snd (createTopicForVisitor quietPlatform anonShopState ''anon-1'' ''shop.example''))
       = [CreateForumTopic ''[Anon] Visitor #1 from shop.example'']
   \<and> getVisitor (visitors (snd (createTopicForVisitor quietPlatform anonShopState ''anon-1'' ''shop.example'')))
         ''anon-1'' = Some (anonVisitor\<lparr>telegram_topic_id := Some 42\<rparr>)"
proof -
  have h: "botReady anonShopState" "getVisitor (visitors anonShopState) ''anon-1'' = Some anonVisitor"
    "auth_type anonVisitor = anonymous_type" "\<not> truthyId (telegram_topic_id anonVisitor)"
    by (simp_all add: anonShopState_def emptyState_def anonVisitor_def getVisitor_def)
  have n: "\<not> truthy (vname anonVisitor)" "\<not> truthy (vemail anonVisitor)"
    by (simp_all add: anonVisitor_def)
  from anonymous_thread_title [OF h, of "''shop.example''" quietPlatform, unfolded Let_def] h(1,2,3) n
  show ?thesis
    by (simp add: quietPlatform_def getVisitorCount_def anonShopState_def emptyState_def showNat_1)
qed

text \<open>
  The claim as the specification words it gives the title \<open>Visitor #N from site\<close> to such a
  visitor, with \<open>N\<close> from a sequential count.  The first outbound send of the only,
  anonymous and unidentified, visitor of \<open>shop.example\<close> creates
  \<open>[Anon] Visitor #1 from shop.example\<close> instead.  And with two such visitors on the table,
  the first send of the one and then the first send of the other both create a thread
  titled \<open>[Anon] Visitor #2 from shop.example\<close>: \<open>N\<close> is the number of rows, not a number of
  the visitor's own.
\<close>

theorem anonymous_thread_title_counterexample:
  "botCalls (snd (sendToTopic quietPlatform anonShopState ''anon-1'' ''hi'' text_kind ''shop.example'' None))
     = [CreateForumTopic ''[Anon] Visitor #1 from shop.example'', SendMessage 42 ''hi'']
   \<and> CreateForumTopic ''Visitor #1 from shop.example''
       \<notin> set (botCalls (snd (sendToTopic quietPlatform anonShopState ''anon-1'' ''hi'' text_kind
                                ''shop.example'' None)))
   \<and> botCalls (snd (sendToTopic quietPlatform
         (snd (sendToTopic quietPlatform twoAnonState ''anon-1'' ''hi'' text_kind ''shop.example'' None))
         ''anon-2'' ''hello'' text_kind ''shop.example'' None))
     = [CreateForumTopic ''[Anon] Visitor #2 from shop.example'', SendMessage 42 ''hi'',
        CreateForumTopic ''[Anon] Visitor #2 from shop.example'', SendMessage 42 ''hello'']"
  by (simp add: sendToTopic_def sendWithRecovery_def sendToTopicId_def outboundCall_def
      createTopicForVisitor_def topicName_def getVisitor_def getVisitorCount_def setTopicId_def
      anonShopState_def twoAnonState_def emptyState_def anonVisitor_def quietPlatform_def Let_def
      showNat_1 showNat_2)

subsection \<open>Thread recovery\<close>

text \<open>
  Claim C6, as amended.  The visitor has a cached thread \<open>t\<close>, and the platform answers the
  send to it with an error that \<open>isMissingThreadError\<close> recognises.  Then \<open>sendToTopic\<close> clears
  the cached id and asks the platform for exactly one replacement thread.  When the platform
  returns a usable thread id \<open>r\<close>, it is cached on the visitor row and the same content is
  sent once more, to \<open>r\<close>, and nothing else is asked of the platform: the calls are exactly
  the first send, the creation and the retry, whatever the retry's outcome; a retry that
  fails with a thrown value other than \<open>null\<close> or \<open>undefined\<close> only adds a line to the error
  log.  When no usable thread id comes back, the calls are the first send and the creation
  and nothing is retried; the failure of the first send is logged, after the failure of the
  creation if that threw a value other than \<open>null\<close> or \<open>undefined\<close>.
\<close>

theorem thread_recovery_once:
  assumes "botReady st"
    and "getVisitor (visitors st) visitor = Some v" and "telegram_topic_id v = Some t" and "t \<noteq> 0"
    and "outboundCall env cont kind fileUrl t = Inr firstCall"
    and "sendReply env (botCalls st) firstCall = SendFailed err"
    and "isMissingThreadError err"
  shows
    "(let result = sendToTopic env st visitor cont kind siteName fileUrl;
          final = snd result;
          title = topicName (Some (v\<lparr>telegram_topic_id := None\<rparr>)) (getVisitorCount (visitors st)) siteName;
          attempted = botCalls st @ [firstCall, CreateForumTopic title]
      in case createForumTopic env (botCalls st @ [firstCall]) title of
           TopicCreated r \<Rightarrow>
             if r \<noteq> 0 then
               (\<exists>retry. outboundCall env cont kind fileUrl r = Inr retry
                  \<and> botCalls final = attempted @ [retry]
                  \<and> getVisitor (visitors final) visitor = Some (v\<lparr>telegram_topic_id := Some r\<rparr>)
                  \<and> (case sendReply env attempted retry of
                        Sent \<Rightarrow> fst result = Returns () \<and> errorLog final = errorLog st
                      | SendFailed e \<Rightarrow>
                          e \<noteq> Nullish \<longrightarrow>
                            fst result = Returns ()
                            \<and> errorLog final = errorLog st @ [ErrorSendingToRecreatedTopic e]))
             else botCalls final = attempted \<and> fst result = Returns ()
                \<and> errorLog final = errorLog st @ [ErrorSendingToTopic err]
         | NoThreadId \<Rightarrow>
             botCalls final = attempted \<and> fst result = Returns ()
             \<and> errorLog final = errorLog st @ [ErrorSendingToTopic err]
             \<and> getVisitor (visitors final) visitor = Some (v\<lparr>telegram_topic_id := None\<rparr>)
         | CreateFailed e \<Rightarrow>
             botCalls final = attempted
             \<and> getVisitor (visitors final) visitor = Some (v\<lparr>telegram_topic_id := None\<rparr>)
             \<and> (e \<noteq> Nullish \<longrightarrow>
                   fst result = Returns ()
                   \<and> errorLog final = errorLog st @ [ErrorCreatingTopic e, ErrorSendingToTopic err]))"
proof -
  have eq: "sendToTopic env st visitor cont kind siteName fileUrl =
          sendWithRecovery env st visitor cont kind siteName fileUrl t"
    using assms(1-4) by (simp add: sendToTopic_def)
  note r = recovery_after_missing_thread [OF assms(1,2,5,6,7) refl refl refl, of siteName]
  show ?thesis
    unfolding Let_def eq
    using r by (auto split: create_reply.splits send_reply.splits if_splits)
qed

theorem thread_recovery_once_witness:
  "botReady lostThreadState
   \<and> sendReply lostThreadPlatform (botCalls lostThreadState) (SendMessage 7 ''hi'')
       = SendFailed (ErrorObject (Some ''ETELEGRAM: 400 Bad Request: message thread not found''))
   \<and> isMissingThreadError (ErrorObject (Some ''ETELEGRAM: 400 Bad Request: message thread not found''))
   \<and> botCalls (snd (sendToTopic lostThreadPlatform lostThreadState ''anon-1'' ''hi'' text_kind
                       ''shop.example'' None))
       = [SendMessage 7 ''hi'', CreateForumTopic ''[Anon] Visitor #1 from shop.example'', SendMessage 8 ''hi'']
   \<and> errorLog (snd (sendToTopic lostThreadPlatform lostThreadState ''anon-1'' ''hi'' text_kind
                       ''shop.example'' None))
       = [ErrorSendingToRecreatedTopic (ErrorObject (Some ''ETELEGRAM: 429 Too Many Requests''))]
   \<and> fst (sendToTopic lostThreadPlatform lostThreadState ''anon-1'' ''hi'' text_kind ''shop.example'' None)
       = Returns ()"
proof -
  let ?v = "anonVisitor\<lparr>telegram_topic_id := Some 7\<rparr>"
  have h1: "botReady lostThreadState"
    by (simp add: lostThreadState_def emptyState_def)
  have h2: "getVisitor (visitors lostThreadState) ''anon-1'' = Some ?v"
    by (simp add: lostThreadState_def emptyState_def getVisitor_def anonVisitor_def)
  have h3: "telegram_topic_id ?v = Some 7" and h4: "(7::int) \<noteq> 0"
    by simp_all
  have h5: "outboundCall lostThreadPlatform ''hi'' text_kind None 7 = Inr (SendMessage 7 ''hi'')"
    by (simp add: outboundCall_def)
  have h6: "sendReply lostThreadPlatform (botCalls lostThreadState) (SendMessage 7 ''hi'')
       = SendFailed (ErrorObject (Some ''ETELEGRAM: 400 Bad Request: message thread not found''))"
    by (simp add: lostThreadPlatform_def quietPlatform_def)
  note h7 = missing_thread_message
  have title: "topicName (Some (?v\<lparr>telegram_topic_id := None\<rparr>))
      (getVisitorCount (visitors lostThreadState)) ''shop.example'' = ''[Anon] Visitor #1 from shop.example''"
    by (simp add: topicName_def anonVisitor_def getVisitorCount_def lostThreadState_def emptyState_def
        showNat_1 Let_def)
  have created: "\<And>calls t. createForumTopic lostThreadPlatform calls t = TopicCreated 8"
    by (simp add: lostThreadPlatform_def quietPlatform_def)
  have retry: "\<And>calls. sendReply lostThreadPlatform calls (SendMessage 8 ''hi'')
      = SendFailed (ErrorObject (Some ''ETELEGRAM: 429 Too Many Requests''))"
    by (simp add: lostThreadPlatform_def quietPlatform_def)
  from thread_recovery_once [OF h1 h2 h3 h4 h5 h6 h7, of "''shop.example''", unfolded Let_def title created]
  have "botCalls (snd (sendToTopic lostThreadPlatform lostThreadState ''anon-1'' ''hi'' text_kind
                       ''shop.example'' None))
       = [SendMessage 7 ''hi'', CreateForumTopic ''[Anon] Visitor #1 from shop.example'', SendMessage 8 ''hi'']
   \<and> errorLog (snd (sendToTopic lostThreadPlatform lostThreadState ''anon-1'' ''hi'' text_kind
                       ''shop.example'' None))
       = [ErrorSendingToRecreatedTopic (ErrorObject (Some ''ETELEGRAM: 429 Too Many Requests''))]
   \<and> fst (sendToTopic lostThreadPlatform lostThreadState ''anon-1'' ''hi'' text_kind ''shop.example'' None)
       = Returns ()"
    by (auto simp: outboundCall_def retry lostThreadState_def emptyState_def)
  with h1 h6 h7 show ?thesis by blast
qed

text \<open>
  The claim as the specification words it has one replacement thread created and one retry
  after every missing-thread failure, and a failed retry logged.  On a platform that
  refuses to create the replacement thread nothing is retried: the calls are the first send
  and the creation.  And on a platform whose retried send is rejected with \<open>null\<close>, the
  \<open>catch\<close> block throws on reading \<open>.message\<close>: no line is logged and the promise of
  \<open>sendToTopic\<close> rejects.
\<close>

theorem thread_recovery_once_counterexample:
  "botCalls (snd (sendToTopic noReplacementPlatform lostThreadState ''anon-1'' ''hi'' text_kind
                    ''shop.example'' None))
     = [SendMessage 7 ''hi'', CreateForumTopic ''[Anon] Visitor #1 from shop.example'']
   \<and> errorLog (snd (sendToTopic noReplacementPlatform lostThreadState ''anon-1'' ''hi'' text_kind
                       ''shop.example'' None))
       = [ErrorCreatingTopic (ErrorObject (Some ''ETELEGRAM: 400 Bad Request: not enough rights'')),
          ErrorSendingToTopic (ErrorObject (Some ''ETELEGRAM: 400 Bad Request: message thread not found''))]
   \<and> sendReply nullRetryPlatform
         [SendMessage 7 ''hi'', CreateForumTopic ''[Anon] Visitor #1 from shop.example'']
         (SendMessage 8 ''hi'') = SendFailed Nullish
   \<and> botCalls (snd (sendToTopic nullRetryPlatform lostThreadState ''anon-1'' ''hi'' text_kind
                       ''shop.example'' None))
       = [SendMessage 7 ''hi'', CreateForumTopic ''[Anon] Visitor #1 from shop.example'', SendMessage 8 ''hi'']
   \<and> errorLog (snd (sendToTopic nullRetryPlatform lostThreadState ''anon-1'' ''hi'' text_kind
                       ''shop.example'' None)) = []
   \<and> fst (sendToTopic nullRetryPlatform lostThreadState ''anon-1'' ''hi'' text_kind ''shop.example'' None)
       = RejectsTypeError"
  by (simp add: sendToTopic_def sendWithRecovery_def sendToTopicId_def outboundCall_def
      createTopicForVisitor_def clearVisitorTopic_def topicName_def getVisitor_def getVisitorCount_def
      setTopicId_def lostThreadState_def emptyState_def anonVisitor_def noReplacementPlatform_def
      nullRetryPlatform_def lostThreadPlatform_def quietPlatform_def Let_def showNat_1
      missing_thread_text)

section \<open>Proofs: history\<close>

lemma getHistory_sorted: "sorted (map created_at (getHistory ms v))"
  by (simp add: getHistory_def)

lemma getHistory_mset: "mset (getHistory ms v) = mset (filter (\<lambda>m. visitor_id m = v) ms)"
  by (simp add: getHistory_def)

lemma getHistory_monotone_clock:
  "sorted (map created_at (filter (\<lambda>m. visitor_id m = v) ms)) \<Longrightarrow>
   getHistory ms v = filter (\<lambda>m. visitor_id m = v) ms"
  by (simp add: getHistory_def sort_key_id_if_sorted)

lemma foldr_max_ge: "x \<in> set xs \<Longrightarrow> x \<le> foldr max xs (0::int)"
  by (induction xs) auto

lemma nextMessageId_greater: "m \<in> set ms \<Longrightarrow> msg_id m < nextMessageId ms"
  using foldr_max_ge [of "msg_id m" "map msg_id ms"] by (simp add: nextMessageId_def)

lemma addMessage_ids_increase:
  "sorted_wrt (<) (map msg_id ms) \<Longrightarrow>
   sorted_wrt (<) (map msg_id (fst (addMessage ms visitor sndr cont kind fileUrl now)))"
  by (auto simp: addMessage_def sorted_wrt_append nextMessageId_greater)

lemma sorted_wrt_filter_ids:
  "sorted_wrt (<) (map msg_id ms) \<Longrightarrow> sorted_wrt (<) (map msg_id (filter P ms))"
  by (induction ms) auto

subsection \<open>Order of the history\<close>

text \<open>
  Claim C8, as amended.  For claims whose subject equals the non-empty path parameter, the
  history request returns exactly the stored messages of that visitor, ordered by their
  creation timestamp, ascending.  Where the timestamps of the visitor's messages never
  decrease along the table, that is, the clock was never set back between two of them, this
  is the order of storage; the ids of a table that grew by \<open>addMessage\<close> increase along it,
  so it is then also the order of increasing ids.
\<close>

theorem history_sorted_by_timestamp:
  assumes "sub c = visitorParam" and "visitorParam \<noteq> []"
  shows "\<exists>h. historyHandler st c visitorParam = Inr h
           \<and> mset h = mset (filter (\<lambda>m. visitor_id m = visitorParam) (messages st))
           \<and> sorted (map created_at h)
           \<and> (sorted (map created_at (filter (\<lambda>m. visitor_id m = visitorParam) (messages st))) \<longrightarrow>
                h = filter (\<lambda>m. visitor_id m = visitorParam) (messages st)
                \<and> (sorted_wrt (<) (map msg_id (messages st)) \<longrightarrow> sorted_wrt (<) (map msg_id h)))"
  using assms
  by (simp add: historyHandler_def resolveVisitorId_def getHistory_sorted getHistory_mset
      getHistory_monotone_clock sorted_wrt_filter_ids)

theorem history_sorted_by_timestamp_witness:
  "sub claimsOfV1 = ''v1''
   \<and> (case historyHandler (emptyState\<lparr>messages := clockSetBack\<rparr>) claimsOfV1 ''v1'' of
        Inl failure \<Rightarrow> [] | Inr h \<Rightarrow> map created_at h) = [99, 100]"
proof -
  have h1: "sub claimsOfV1 = ''v1''" and h2: "''v1'' \<noteq> []"
    by (simp_all add: claimsOfV1_def)
  from history_sorted_by_timestamp [OF h1 h2, of "emptyState\<lparr>messages := clockSetBack\<rparr>"]
  obtain h where h: "historyHandler (emptyState\<lparr>messages := clockSetBack\<rparr>) claimsOfV1 ''v1'' = Inr h"
    and m: "mset h = mset (filter (\<lambda>m. visitor_id m = ''v1'') (messages (emptyState\<lparr>messages := clockSetBack\<rparr>)))"
    and s: "sorted (map created_at h)"
    by blast
  have "mset (map created_at h) = image_mset created_at (mset h)"
    by simp
  also have "\<dots> = mset [100, 99]"
    unfolding m by (simp add: clockSetBack_def addMessage_def nextMessageId_def emptyState_def)
  finally have "sort [100, 99] = map created_at h"
    using s by (intro properties_for_sort) simp_all
  then have "map created_at h = [99, 100]"
    by simp
  with h1 h show ?thesis by simp
qed

text \<open>
  The claim as the specification words it promises the order of the ids.  Two messages
  \<open>a\<close> then \<open>b\<close> of one visitor get the ids \<open>1\<close> and \<open>2\<close>; with the clock set back by a
  second between them, the history lists message \<open>2\<close> before message \<open>1\<close>.
\<close>

theorem history_sorted_by_timestamp_counterexample:
  "map msg_id clockSetBack = [1, 2] \<and> map content clockSetBack = [''a'', ''b'']
   \<and> (case historyHandler (emptyState\<lparr>messages := clockSetBack\<rparr>) claimsOfV1 ''v1'' of
        Inl failure \<Rightarrow> [] | Inr h \<Rightarrow> map msg_id h) = [2, 1]"
  by (simp add: clockSetBack_def addMessage_def nextMessageId_def historyHandler_def resolveVisitorId_def
      getHistory_def claimsOfV1_def emptyState_def)

section \<open>Proofs: session validator\<close>

lemma sameBinding_refl: "sameBinding r r"
  by (simp add: sameBinding_def)

lemma sameBinding_trans: "sameBinding r r' \<Longrightarrow> sameBinding r' r'' \<Longrightarrow> sameBinding r r''"
  by (simp add: sameBinding_def)

lemma validate_table:
  "snd (validateTokenSession env tbl c h nowMs) = tbl
   \<or> (getTokenSession tbl (trim (jti c)) = None \<and>
      snd (validateTokenSession env tbl c h nowMs) =
        insertTokenSession tbl (trim (jti c)) (trim (sub c)) (orElse (tokenSiteHost env (site c)) h) h (exp c)
          (nowMs div 1000))
   \<or> snd (validateTokenSession env tbl c h nowMs) = touchTokenSession tbl (trim (jti c)) (nowMs div 1000)"
  by (simp add: validateTokenSession_def Let_def split: option.splits)

lemma validate_keeps_rows:
  "getTokenSession tbl j = Some r \<Longrightarrow>
   \<exists>r'. snd (validateTokenSession env tbl c h nowMs) j = Some r' \<and> sameBinding r r'
        \<and> revoked_at r' = revoked_at r"
  using validate_table [of env tbl c h nowMs]
  by (auto simp: getTokenSession_def insertTokenSession_def touchTokenSession_def sameBinding_def
      split: option.splits)

lemma snd_verdict:
  "snd (case p of (False, t) \<Rightarrow> (None, t) | (True, t) \<Rightarrow> (Some d, t)) = snd p"
  by (cases p) (simp split: bool.splits)

lemma verify_table:
  "snd (verifyToken env tbl token originHeader nowMs) = tbl
   \<or> (\<exists>c h. snd (verifyToken env tbl token originHeader nowMs) = snd (validateTokenSession env tbl c h nowMs))"
  by (auto simp: verifyToken_def snd_verdict split: option.splits jwt_decoded.splits)

lemma verify_keeps_rows:
  "getTokenSession tbl j = Some r \<Longrightarrow>
   \<exists>r'. snd (verifyToken env tbl token originHeader nowMs) j = Some r' \<and> sameBinding r r'
        \<and> revoked_at r' = revoked_at r"
  using verify_table [of env tbl token originHeader nowMs] validate_keeps_rows [of tbl j r env _ _ nowMs]
  by (auto simp: sameBinding_refl getTokenSession_def)

lemma revoke_keeps_rows:
  "getTokenSession tbl j = Some r \<Longrightarrow> \<exists>r'. revokeTokenSession tbl k now j = Some r' \<and> sameBinding r r'"
  by (auto simp: revokeTokenSession_def sameBinding_def getTokenSession_def split: option.splits)

lemma revokeRoute_table:
  "snd (revokeRoute env tbl token originHeader nowMs) = snd (verifyToken env tbl token originHeader nowMs)
   \<or> (\<exists>k. snd (revokeRoute env tbl token originHeader nowMs) =
          revokeTokenSession (snd (verifyToken env tbl token originHeader nowMs)) k (nowMs div 1000))"
  by (cases "verifyToken env tbl token originHeader nowMs")
     (auto simp: revokeRoute_def split: option.splits)

lemma revokeRoute_keeps_rows:
  assumes "getTokenSession tbl j = Some r"
  shows "\<exists>r'. snd (revokeRoute env tbl token originHeader nowMs) j = Some r' \<and> sameBinding r r'"
proof -
  from verify_keeps_rows [OF assms, of env token originHeader nowMs] obtain r1
    where 1: "getTokenSession (snd (verifyToken env tbl token originHeader nowMs)) j = Some r1"
      and b1: "sameBinding r r1"
    by (auto simp: getTokenSession_def)
  from revokeRoute_table [of env tbl token originHeader nowMs] show ?thesis
  proof (elim disjE exE)
    assume "snd (revokeRoute env tbl token originHeader nowMs) = snd (verifyToken env tbl token originHeader nowMs)"
    with 1 b1 show ?thesis by (auto simp: getTokenSession_def)
  next
    fix k
    assume e: "snd (revokeRoute env tbl token originHeader nowMs) =
          revokeTokenSession (snd (verifyToken env tbl token originHeader nowMs)) k (nowMs div 1000)"
    from revoke_keeps_rows [OF 1, of k "nowMs div 1000"] obtain r2
      where "revokeTokenSession (snd (verifyToken env tbl token originHeader nowMs)) k (nowMs div 1000) j
               = Some r2" and "sameBinding r1 r2"
      by blast
    with e sameBinding_trans [OF b1] show ?thesis by auto
  qed
qed

lemma purge_keeps_rows:
  "getTokenSession tbl j = Some r \<Longrightarrow> \<not> expires_at r < now \<Longrightarrow>
   purgeExpiredTokenSessions tbl now j = Some r"
  by (simp add: purgeExpiredTokenSessions_def getTokenSession_def)

lemma step_keeps_rows:
  assumes "getTokenSession tbl j = Some r" and "\<not> purgedBy (expires_at r) op"
  shows "\<exists>r'. sessionStep env tbl op j = Some r' \<and> sameBinding r r'"
proof (cases op)
  case (Validate token originHeader nowMs)
  from verify_keeps_rows [OF assms(1), of env token originHeader nowMs] show ?thesis
    by (auto simp: Validate)
next
  case (RevokeRequest token originHeader nowMs)
  from revokeRoute_keeps_rows [OF assms(1), of env token originHeader nowMs] show ?thesis
    by (auto simp: RevokeRequest)
next
  case (Purge nowMs)
  with assms(2) have "\<not> expires_at r < nowMs div 1000" by simp
  from purge_keeps_rows [OF assms(1) this] show ?thesis
    by (auto simp: Purge sameBinding_refl)
qed

lemma run_keeps_rows:
  assumes "getTokenSession tbl j = Some r" and "\<forall>op\<in>set ops. \<not> purgedBy (expires_at r) op"
  shows "\<exists>r'. runSessionOps env tbl ops j = Some r' \<and> sameBinding r r'"
  using assms(2)
proof (induction ops rule: rev_induct)
  case Nil
  then show ?case using assms(1) by (simp add: runSessionOps_def sameBinding_refl getTokenSession_def)
next
  case (snoc op ops)
  then have "\<forall>op\<in>set ops. \<not> purgedBy (expires_at r) op" and keep: "\<not> purgedBy (expires_at r) op"
    by simp_all
  from snoc.IH [OF this(1)] obtain r1
    where 1: "runSessionOps env tbl ops j = Some r1" and b1: "sameBinding r r1" by blast
  from 1 have g: "getTokenSession (runSessionOps env tbl ops) j = Some r1"
    by (simp add: getTokenSession_def)
  from b1 keep have "\<not> purgedBy (expires_at r1) op"
    by (simp add: sameBinding_def)
  from step_keeps_rows [OF g this, of env] obtain r2
    where 2: "sessionStep env (runSessionOps env tbl ops) op j = Some r2" and b2: "sameBinding r1 r2"
    by blast
  from 2 have "runSessionOps env tbl (ops @ [op]) j = Some r2"
    by (simp add: runSessionOps_def)
  with sameBinding_trans [OF b1 b2] show ?case by blast
qed

lemma validate_bound_row:
  assumes "getTokenSession tbl (trim (jti c)) = Some r" and "truthy (origin_host r)"
    and "Some h \<noteq> origin_host r \<or> trim (sub c) \<noteq> ts_sub r \<or> revoked_at r \<noteq> None
         \<or> expires_at r < nowMs div 1000"
  shows "validateTokenSession env tbl c h nowMs = (False, tbl)"
  using assms
  by (simp add: validateTokenSession_def Let_def) auto

lemma verify_bound_row:
  assumes "getTokenSession tbl (trim (jti c)) = Some r" and "truthy (origin_host r)"
    and "jwtVerify env token nowMs = Some (Payload c)"
    and "originHost env originHeader \<noteq> origin_host r \<or> trim (sub c) \<noteq> ts_sub r \<or> revoked_at r \<noteq> None
         \<or> expires_at r < nowMs div 1000"
  shows "verifyToken env tbl token originHeader nowMs = (None, tbl)"
proof (cases "originHost env originHeader")
  case None
  then show ?thesis by (simp add: verifyToken_def)
next
  case (Some h)
  with assms(4) have "Some h \<noteq> origin_host r \<or> trim (sub c) \<noteq> ts_sub r \<or> revoked_at r \<noteq> None
         \<or> expires_at r < nowMs div 1000" by simp
  from validate_bound_row [OF assms(1,2) this, of env]
  show ?thesis
    by (simp add: verifyToken_def Some assms(3))
qed

lemma verify_success:
  assumes "verifyToken env tbl token originHeader nowMs = (Some c, tbl')"
  shows "\<exists>h. originHost env originHeader = Some h \<and> h \<noteq> [] \<and> h \<in> set (allowedOriginHosts env)
           \<and> jwtVerify env token nowMs = Some (Payload c)
           \<and> validateTokenSession env tbl c h nowMs = (True, tbl')"
  using assms
  by (simp add: verifyToken_def split: option.splits jwt_decoded.splits prod.splits bool.splits if_splits)

lemma validate_first_use:
  assumes "validateTokenSession env tbl c h nowMs = (True, tbl')"
    and "getTokenSession tbl (trim (jti c)) = None"
  shows "tbl' = insertTokenSession tbl (trim (jti c)) (trim (sub c))
                  (orElse (tokenSiteHost env (site c)) h) h (exp c) (nowMs div 1000)"
  using assms
  by (simp add: validateTokenSession_def Let_def split: if_splits)

lemma verify_first_use:
  assumes "verifyToken env tbl token originHeader nowMs = (Some c, tbl')"
    and "getTokenSession tbl (trim (jti c)) = None"
  shows "\<exists>h r. originHost env originHeader = Some h \<and> h \<noteq> [] \<and> h \<in> set (allowedOriginHosts env)
           \<and> jwtVerify env token nowMs = Some (Payload c)
           \<and> getTokenSession tbl' (trim (jti c)) = Some r \<and> origin_host r = Some h
           \<and> ts_sub r = trim (sub c) \<and> expires_at r = exp c \<and> revoked_at r = None"
proof -
  from verify_success [OF assms(1)] obtain h
    where h: "originHost env originHeader = Some h" "h \<noteq> []" "h \<in> set (allowedOriginHosts env)"
      "jwtVerify env token nowMs = Some (Payload c)"
    and v: "validateTokenSession env tbl c h nowMs = (True, tbl')"
    by blast
  note t = validate_first_use [OF v assms(2)]
  show ?thesis
    using h by (simp add: t insertTokenSession_def getTokenSession_def)
qed

lemma revoke_marks_row:
  "getTokenSession tbl j = Some r \<Longrightarrow>
   \<exists>r'. getTokenSession (revokeTokenSession tbl j now) j = Some r' \<and> revoked_at r' \<noteq> None
        \<and> sameBinding r r'"
  by (simp add: revokeTokenSession_def getTokenSession_def sameBinding_def)

text \<open>A successful validation leaves a non-empty \<open>jti\<close> and \<open>sub\<close> on the claims.\<close>

lemma trimStart_Nil: "trimStart [] = []"
  by simp

lemma trim_Nil: "trim [] = []"
  by (simp add: trim_def trimEnd_def)

lemma verify_success_ids:
  assumes "verifyToken env tbl token originHeader nowMs = (Some c, tbl')"
  shows "jti c \<noteq> [] \<and> sub c \<noteq> []"
proof -
  from verify_success [OF assms] obtain h where "validateTokenSession env tbl c h nowMs = (True, tbl')"
    by blast
  then have "trim (jti c) \<noteq> [] \<and> trim (sub c) \<noteq> []"
    by (simp add: validateTokenSession_def Let_def split: if_splits)
  then show ?thesis
    using trim_Nil by auto
qed

lemma revokeRoute_marks_row:
  assumes "getTokenSession tbl (jti c) = Some r"
    and "verifyToken env tbl token originHeader nowMs = (Some c, tbl')"
  shows "\<exists>r'. getTokenSession (snd (revokeRoute env tbl token originHeader nowMs)) (jti c) = Some r'
           \<and> revoked_at r' \<noteq> None \<and> sameBinding r r'"
proof -
  from verify_keeps_rows [OF assms(1), of env token originHeader nowMs] assms(2) obtain r1
    where 1: "getTokenSession tbl' (jti c) = Some r1" and b1: "sameBinding r r1"
    by (auto simp: getTokenSession_def)
  from revoke_marks_row [OF 1, of "nowMs div 1000"] obtain r2
    where 2: "getTokenSession (revokeTokenSession tbl' (jti c) (nowMs div 1000)) (jti c) = Some r2"
      and rev: "revoked_at r2 \<noteq> None" and b2: "sameBinding r1 r2"
    by blast
  from verify_success_ids [OF assms(2)] have "snd (revokeRoute env tbl token originHeader nowMs)
      = revokeTokenSession tbl' (jti c) (nowMs div 1000)"
    by (simp add: revokeRoute_def assms(2))
  with 2 rev sameBinding_trans [OF b1 b2] show ?thesis by auto
qed

lemma run_append:
  "runSessionOps env tbl (pre @ op # post) = runSessionOps env (sessionStep env (runSessionOps env tbl pre) op) post"
  by (simp add: runSessionOps_def)

lemma run_after_revoke:
  assumes row: "getTokenSession tbl j = Some r"
    and keep: "\<forall>op\<in>set (pre @ RevokeRequest token originHeader nowMs # post). \<not> purgedBy (expires_at r) op"
    and ok: "verifyToken env (runSessionOps env tbl pre) token originHeader nowMs = (Some c, tbl')"
    and raw: "jti c = j"
  shows "\<exists>r'. getTokenSession (runSessionOps env tbl (pre @ RevokeRequest token originHeader nowMs # post)) j
               = Some r' \<and> revoked_at r' \<noteq> None"
proof -
  from keep have kpre: "\<forall>op\<in>set pre. \<not> purgedBy (expires_at r) op"
    and kpost: "\<forall>op\<in>set post. \<not> purgedBy (expires_at r) op"
    by simp_all
  from run_keeps_rows [OF row kpre, of env] obtain ra
    where ra: "getTokenSession (runSessionOps env tbl pre) (jti c) = Some ra" and ba: "sameBinding r ra"
    by (auto simp: getTokenSession_def raw)
  from revokeRoute_marks_row [OF ra ok] obtain rb
    where rb: "getTokenSession (snd (revokeRoute env (runSessionOps env tbl pre) token originHeader nowMs)) j
                 = Some rb"
      and rev: "revoked_at rb \<noteq> None" and bb: "sameBinding ra rb"
    by (auto simp: raw)
  from ba bb kpost have "\<forall>op\<in>set post. \<not> purgedBy (expires_at rb) op"
    by (simp add: sameBinding_def)
  from run_keeps_rows [OF rb this, of env] obtain rc
    where "runSessionOps env (snd (revokeRoute env (runSessionOps env tbl pre) token originHeader nowMs)) post j
             = Some rc"
      and "sameBinding rb rc"
    by blast
  with rev show ?thesis
    by (simp add: run_append getTokenSession_def sameBinding_def)
qed

lemma demo_strings:
  "trim ''jti-1'' = ''jti-1''" "trim ''alice'' = ''alice''"
  "toLowerCase ''a.example'' = ''a.example''" "toLowerCase ''b.example'' = ''b.example''"
  by code_simp+

lemma padded_string: "trim '' jti-3'' = ''jti-3''"
  by code_simp

lemma demo_first_validation:
  "verifyToken demoAuthEnv Map.empty ''token-1'' ''https://a.example'' 1000000
     = (Some aliceClaims, Map.empty(''jti-1'' \<mapsto> aliceRow))"
  by (simp add: verifyToken_def validateTokenSession_def originHost_def toHost_def tokenSiteHost_def
      getTokenSession_def insertTokenSession_def demoAuthEnv_def aliceClaims_def aliceRow_def
      demo_strings Let_def)

subsection \<open>Replay binding\<close>

text \<open>
  Claim C1, as amended.  The token id and the subject are the \<open>jti\<close> and \<open>sub\<close> claims with
  surrounding white space removed, as \<open>validateTokenSession\<close> reads them.  First part: when a
  validation succeeds for a token id that has no row, the request's origin host is
  allow-listed and the table then holds a row for the token id that binds it to that origin
  host, to the subject and to the token's expiry, not revoked.  Second part: once a token id
  has a row bound to an origin host, then after any further validations, revoke requests
  and purges, none of the purges running after the row's expiry, the row is still there with
  the same origin host, subject and expiry; a revocation is not undone; a revoke request
  among them that was authenticated with a token whose \<open>jti\<close> claim is the token id itself
  leaves the row revoked; and a validation of a validly signed token with that token id
  fails and changes nothing when it comes from another origin host, or names another
  subject, or the row is revoked, or the recorded expiry has passed.
\<close>

theorem token_bound_to_first_origin:
  "(verifyToken env tbl token originHeader nowMs = (Some c, tbl')
      \<and> getTokenSession tbl (trim (jti c)) = None \<longrightarrow>
      (\<exists>h r. originHost env originHeader = Some h \<and> h \<noteq> [] \<and> h \<in> set (allowedOriginHosts env)
         \<and> getTokenSession tbl' (trim (jti c)) = Some r \<and> origin_host r = Some h
         \<and> ts_sub r = trim (sub c) \<and> expires_at r = exp c \<and> revoked_at r = None))
   \<and> (getTokenSession tbl0 tokenId = Some r0 \<and> truthy (origin_host r0)
      \<and> (\<forall>op\<in>set ops. \<not> purgedBy (expires_at r0) op) \<longrightarrow>
      (\<exists>r1. getTokenSession (runSessionOps env tbl0 ops) tokenId = Some r1
         \<and> origin_host r1 = origin_host r0 \<and> ts_sub r1 = ts_sub r0 \<and> expires_at r1 = expires_at r0
         \<and> (revoked_at r0 \<noteq> None \<longrightarrow> revoked_at r1 \<noteq> None)
         \<and> (\<forall>pre token' originHeader' nowMs' post c' tbl1.
              ops = pre @ RevokeRequest token' originHeader' nowMs' # post
              \<and> verifyToken env (runSessionOps env tbl0 pre) token' originHeader' nowMs' = (Some c', tbl1)
              \<and> jti c' = tokenId
              \<longrightarrow> revoked_at r1 \<noteq> None)
         \<and> (\<forall>token' originHeader' nowMs' c'.
              jwtVerify env token' nowMs' = Some (Payload c') \<and> trim (jti c') = tokenId
              \<and> (originHost env originHeader' \<noteq> origin_host r0 \<or> trim (sub c') \<noteq> ts_sub r0
                 \<or> revoked_at r1 \<noteq> None \<or> expires_at r0 < nowMs' div 1000)
              \<longrightarrow> verifyToken env (runSessionOps env tbl0 ops) token' originHeader' nowMs'
                    = (None, runSessionOps env tbl0 ops))))"
proof (intro conjI impI)
  assume "verifyToken env tbl token originHeader nowMs = (Some c, tbl')
      \<and> getTokenSession tbl (trim (jti c)) = None"
  then show "\<exists>h r. originHost env originHeader = Some h \<and> h \<noteq> [] \<and> h \<in> set (allowedOriginHosts env)
         \<and> getTokenSession tbl' (trim (jti c)) = Some r \<and> origin_host r = Some h
         \<and> ts_sub r = trim (sub c) \<and> expires_at r = exp c \<and> revoked_at r = None"
    using verify_first_use [of env tbl token originHeader nowMs c tbl'] by blast
next
  assume a: "getTokenSession tbl0 tokenId = Some r0 \<and> truthy (origin_host r0)
      \<and> (\<forall>op\<in>set ops. \<not> purgedBy (expires_at r0) op)"
  then have row: "getTokenSession tbl0 tokenId = Some r0" and bound: "truthy (origin_host r0)"
    and keep: "\<forall>op\<in>set ops. \<not> purgedBy (expires_at r0) op"
    by simp_all
  let ?tbl = "runSessionOps env tbl0 ops"
  from run_keeps_rows [OF row keep, of env] obtain r1
    where r1: "getTokenSession ?tbl tokenId = Some r1" and same: "sameBinding r0 r1"
    by (auto simp: getTokenSession_def)
  from same have eqs: "origin_host r1 = origin_host r0" "ts_sub r1 = ts_sub r0" "expires_at r1 = expires_at r0"
    and mono: "revoked_at r0 \<noteq> None \<longrightarrow> revoked_at r1 \<noteq> None"
    by (simp_all add: sameBinding_def)
  have rev: "\<forall>pre token' originHeader' nowMs' post c' tbl1.
              ops = pre @ RevokeRequest token' originHeader' nowMs' # post
              \<and> verifyToken env (runSessionOps env tbl0 pre) token' originHeader' nowMs' = (Some c', tbl1)
              \<and> jti c' = tokenId
              \<longrightarrow> revoked_at r1 \<noteq> None"
  proof (intro allI impI)
    fix pre token' originHeader' nowMs' post c' tbl1
    assume h: "ops = pre @ RevokeRequest token' originHeader' nowMs' # post
              \<and> verifyToken env (runSessionOps env tbl0 pre) token' originHeader' nowMs' = (Some c', tbl1)
              \<and> jti c' = tokenId"
    then have ops: "ops = pre @ RevokeRequest token' originHeader' nowMs' # post"
      and ok: "verifyToken env (runSessionOps env tbl0 pre) token' originHeader' nowMs' = (Some c', tbl1)"
      and raw: "jti c' = tokenId"
      by simp_all
    from keep have k: "\<forall>op\<in>set (pre @ RevokeRequest token' originHeader' nowMs' # post).
        \<not> purgedBy (expires_at r0) op"
      unfolding ops .
    from run_after_revoke [OF row k ok raw] r1 show "revoked_at r1 \<noteq> None"
      unfolding ops by auto
  qed
  have fails: "\<forall>token' originHeader' nowMs' c'.
              jwtVerify env token' nowMs' = Some (Payload c') \<and> trim (jti c') = tokenId
              \<and> (originHost env originHeader' \<noteq> origin_host r0 \<or> trim (sub c') \<noteq> ts_sub r0
                 \<or> revoked_at r1 \<noteq> None \<or> expires_at r0 < nowMs' div 1000)
              \<longrightarrow> verifyToken env ?tbl token' originHeader' nowMs' = (None, ?tbl)"
  proof (intro allI impI)
    fix token' originHeader' nowMs' c'
    assume h: "jwtVerify env token' nowMs' = Some (Payload c') \<and> trim (jti c') = tokenId
              \<and> (originHost env originHeader' \<noteq> origin_host r0 \<or> trim (sub c') \<noteq> ts_sub r0
                 \<or> revoked_at r1 \<noteq> None \<or> expires_at r0 < nowMs' div 1000)"
    then have 1: "getTokenSession ?tbl (trim (jti c')) = Some r1"
      using r1 by simp
    have 2: "truthy (origin_host r1)" using bound eqs by simp
    have 3: "jwtVerify env token' nowMs' = Some (Payload c')" using h by simp
    have 4: "originHost env originHeader' \<noteq> origin_host r1 \<or> trim (sub c') \<noteq> ts_sub r1
                 \<or> revoked_at r1 \<noteq> None \<or> expires_at r1 < nowMs' div 1000"
      using h eqs by simp
    show "verifyToken env ?tbl token' originHeader' nowMs' = (None, ?tbl)"
      by (rule verify_bound_row [OF 1 2 3 4])
  qed
  from r1 eqs mono rev fails show "\<exists>r1. getTokenSession ?tbl tokenId = Some r1
         \<and> origin_host r1 = origin_host r0 \<and> ts_sub r1 = ts_sub r0 \<and> expires_at r1 = expires_at r0
         \<and> (revoked_at r0 \<noteq> None \<longrightarrow> revoked_at r1 \<noteq> None)
         \<and> (\<forall>pre token' originHeader' nowMs' post c' tbl1.
              ops = pre @ RevokeRequest token' originHeader' nowMs' # post
              \<and> verifyToken env (runSessionOps env tbl0 pre) token' originHeader' nowMs' = (Some c', tbl1)
              \<and> jti c' = tokenId
              \<longrightarrow> revoked_at r1 \<noteq> None)
         \<and> (\<forall>token' originHeader' nowMs' c'.
              jwtVerify env token' nowMs' = Some (Payload c') \<and> trim (jti c') = tokenId
              \<and> (originHost env originHeader' \<noteq> origin_host r0 \<or> trim (sub c') \<noteq> ts_sub r0
                 \<or> revoked_at r1 \<noteq> None \<or> expires_at r0 < nowMs' div 1000)
              \<longrightarrow> verifyToken env ?tbl token' originHeader' nowMs' = (None, ?tbl))"
    by blast
qed

theorem token_bound_to_first_origin_witness:
  "verifyToken demoAuthEnv Map.empty ''token-1'' ''https://a.example'' 1000000
     = (Some aliceClaims, Map.empty(''jti-1'' \<mapsto> aliceRow))
   \<and> origin_host aliceRow = Some ''a.example''
   \<and> verifyToken demoAuthEnv (Map.empty(''jti-1'' \<mapsto> aliceRow)) ''token-1'' ''https://b.example'' 1000001
       = (None, Map.empty(''jti-1'' \<mapsto> aliceRow))
   \<and> verifyToken demoAuthEnv (Map.empty(''jti-1'' \<mapsto> aliceRow)) ''token-1'' ''https://a.example'' 2001000
       = (None, Map.empty(''jti-1'' \<mapsto> aliceRow))
   \<and> \<not> purgedBy (expires_at aliceRow) (Purge 1500000)
   \<and> fst (verifyToken demoAuthEnv
         (runSessionOps demoAuthEnv (Map.empty(''jti-1'' \<mapsto> aliceRow))
            [Purge 1500000, RevokeRequest ''token-1'' ''https://a.example'' 1000002])
         ''token-1'' ''https://a.example'' 1000003) = None"
proof -
  let ?tbl = "Map.empty(''jti-1'' \<mapsto> aliceRow)"
  let ?ops = "[Purge 1500000, RevokeRequest ''token-1'' ''https://a.example'' 1000002]"
  note first = demo_first_validation
  have row: "getTokenSession ?tbl ''jti-1'' = Some aliceRow"
    by (simp add: getTokenSession_def)
  have bound: "truthy (origin_host aliceRow)" and host: "origin_host aliceRow = Some ''a.example''"
    by (simp_all add: aliceRow_def)
  have jwt: "\<And>nowMs. jwtVerify demoAuthEnv ''token-1'' nowMs = Some (Payload aliceClaims)"
    by (simp add: demoAuthEnv_def)
  have tid: "trim (jti aliceClaims) = ''jti-1''" and raw: "jti aliceClaims = ''jti-1''"
    by (simp_all add: aliceClaims_def demo_strings)
  have other: "originHost demoAuthEnv ''https://b.example'' \<noteq> origin_host aliceRow"
    by (simp add: originHost_def demoAuthEnv_def aliceRow_def demo_strings)
  have late: "expires_at aliceRow < 2001000 div 1000"
    by (simp add: aliceRow_def)
  have nopurge: "\<not> purgedBy (expires_at aliceRow) (Purge 1500000)"
    by (simp add: aliceRow_def)
  have keep0: "\<forall>op\<in>set []. \<not> purgedBy (expires_at aliceRow) op"
    by simp
  have keep1: "\<forall>op\<in>set ?ops. \<not> purgedBy (expires_at aliceRow) op"
    by (simp add: aliceRow_def)
  note inst0 = token_bound_to_first_origin
    [of demoAuthEnv Map.empty "''token-1''" "''https://a.example''" 1000000 aliceClaims ?tbl ?tbl "''jti-1''"
        aliceRow "[]", THEN conjunct2, THEN mp, OF conjI [OF row conjI [OF bound keep0]]]
  then have fails0: "\<forall>token' originHeader' nowMs' c'.
       jwtVerify demoAuthEnv token' nowMs' = Some (Payload c') \<and> trim (jti c') = ''jti-1''
       \<and> (originHost demoAuthEnv originHeader' \<noteq> origin_host aliceRow \<or> trim (sub c') \<noteq> ts_sub aliceRow
          \<or> revoked_at aliceRow \<noteq> None \<or> expires_at aliceRow < nowMs' div 1000)
       \<longrightarrow> verifyToken demoAuthEnv ?tbl token' originHeader' nowMs' = (None, ?tbl)"
    by (simp add: runSessionOps_def getTokenSession_def)
  from fails0 jwt tid other have replay:
    "verifyToken demoAuthEnv ?tbl ''token-1'' ''https://b.example'' 1000001 = (None, ?tbl)"
    by blast
  from fails0 jwt tid late have expired:
    "verifyToken demoAuthEnv ?tbl ''token-1'' ''https://a.example'' 2001000 = (None, ?tbl)"
    by blast
  have "fst (verifyToken demoAuthEnv (runSessionOps demoAuthEnv ?tbl [Purge 1500000])
               ''token-1'' ''https://a.example'' 1000002) = Some aliceClaims"
    by (simp add: verifyToken_def validateTokenSession_def originHost_def toHost_def tokenSiteHost_def
        getTokenSession_def touchTokenSession_def purgeExpiredTokenSessions_def runSessionOps_def
        demoAuthEnv_def aliceClaims_def aliceRow_def demo_strings Let_def)
  then obtain tbl1 where authed:
    "verifyToken demoAuthEnv (runSessionOps demoAuthEnv ?tbl [Purge 1500000])
       ''token-1'' ''https://a.example'' 1000002 = (Some aliceClaims, tbl1)"
    by (cases "verifyToken demoAuthEnv (runSessionOps demoAuthEnv ?tbl [Purge 1500000])
       ''token-1'' ''https://a.example'' 1000002") simp
  have split: "?ops = [Purge 1500000] @ RevokeRequest ''token-1'' ''https://a.example'' 1000002 # []"
    by simp
  note inst1 = token_bound_to_first_origin
    [of demoAuthEnv Map.empty "''token-1''" "''https://a.example''" 1000000 aliceClaims ?tbl ?tbl "''jti-1''"
        aliceRow ?ops, THEN conjunct2, THEN mp, OF conjI [OF row conjI [OF bound keep1]]]
  then have revoked:
    "fst (verifyToken demoAuthEnv (runSessionOps demoAuthEnv ?tbl ?ops)
         ''token-1'' ''https://a.example'' 1000003) = None"
  proof (elim exE conjE)
    fix r1
    assume r1: "\<forall>pre token' originHeader' nowMs' post c' tbl1.
              ?ops = pre @ RevokeRequest token' originHeader' nowMs' # post
              \<and> verifyToken demoAuthEnv (runSessionOps demoAuthEnv ?tbl pre) token' originHeader' nowMs'
                  = (Some c', tbl1)
              \<and> jti c' = ''jti-1''
              \<longrightarrow> revoked_at r1 \<noteq> None"
      and fails1: "\<forall>token' originHeader' nowMs' c'.
       jwtVerify demoAuthEnv token' nowMs' = Some (Payload c') \<and> trim (jti c') = ''jti-1''
       \<and> (originHost demoAuthEnv originHeader' \<noteq> origin_host aliceRow \<or> trim (sub c') \<noteq> ts_sub aliceRow
          \<or> revoked_at r1 \<noteq> None \<or> expires_at aliceRow < nowMs' div 1000)
       \<longrightarrow> verifyToken demoAuthEnv (runSessionOps demoAuthEnv ?tbl ?ops) token' originHeader' nowMs'
           = (None, runSessionOps demoAuthEnv ?tbl ?ops)"
    from r1 split authed raw have "revoked_at r1 \<noteq> None" by blast
    with fails1 jwt tid have
      "verifyToken demoAuthEnv (runSessionOps demoAuthEnv ?tbl ?ops) ''token-1'' ''https://a.example'' 1000003
       = (None, runSessionOps demoAuthEnv ?tbl ?ops)"
      by blast
    then show ?thesis by simp
  qed
  from first host replay expired nopurge revoked show ?thesis by blast
qed

text \<open>
  The claim as the specification words it has a token id never rebound and every validation
  after a revocation fail.  The maintenance tick purges a row once its expiry has passed;
  after that the token id has no row, and a validly signed token with the same id and a
  later expiry, presented from \<open>b.example\<close>, is accepted and binds the id to \<open>b.example\<close>.
  And the revoke route looks the row up by the \<open>jti\<close> claim as the token carries it, while
  the row is stored under the claim without its surrounding white space: for \<open>token-3\<close>,
  whose \<open>jti\<close> has a leading blank, the route answers \<open>200\<close> and the token is accepted again
  afterwards.
\<close>

theorem token_bound_to_first_origin_counterexample:
  "map_option origin_host
      (getTokenSession
         (runSessionOps threeTokenEnv Map.empty [Validate ''token-1'' ''https://a.example'' 1000000])
         ''jti-1'') = Some (Some ''a.example'')
   \<and> fst (verifyToken threeTokenEnv
           (runSessionOps threeTokenEnv Map.empty
              [Validate ''token-1'' ''https://a.example'' 1000000, Purge 2001000])
           ''token-2'' ''https://b.example'' 2002000) = Some renewedClaims
   \<and> trim (jti renewedClaims) = ''jti-1''
   \<and> map_option origin_host
        (getTokenSession
           (runSessionOps threeTokenEnv Map.empty
              [Validate ''token-1'' ''https://a.example'' 1000000, Purge 2001000,
               Validate ''token-2'' ''https://b.example'' 2002000])
           ''jti-1'') = Some (Some ''b.example'')
   \<and> fst (revokeRoute threeTokenEnv
           (runSessionOps threeTokenEnv Map.empty [Validate ''token-3'' ''https://a.example'' 1000000])
           ''token-3'' ''https://a.example'' 1000001) = 200
   \<and> fst (verifyToken threeTokenEnv
           (runSessionOps threeTokenEnv Map.empty
              [Validate ''token-3'' ''https://a.example'' 1000000,
               RevokeRequest ''token-3'' ''https://a.example'' 1000001])
           ''token-3'' ''https://a.example'' 1000002) = Some paddedClaims"
  by (simp add: verifyToken_def validateTokenSession_def revokeRoute_def originHost_def toHost_def
      tokenSiteHost_def getTokenSession_def insertTokenSession_def touchTokenSession_def
      revokeTokenSession_def purgeExpiredTokenSessions_def runSessionOps_def threeTokenEnv_def
      demoAuthEnv_def aliceClaims_def renewedClaims_def paddedClaims_def demo_strings padded_string
      Let_def)

section \<open>Proofs: connection gateway\<close>

lemma init_result:
  assumes "authenticated conn" and "claims conn = Some c" and "msgType msg = JString ''init''"
  shows "onMessage env ws now (JsonValue msg) (st, conn) = handleInit env ws now c (st, conn)"
  using assms by (simp add: onMessage_def)


lemma onMessage_unauthenticated:
  assumes "\<not> authenticated conn"
  shows "authenticated (fst (snd (onMessage env ws now frame (st, conn))))
       \<or> fst (snd (onMessage env ws now frame (st, conn))) = conn"
  using assms
  by (cases frame)
     (auto simp: onMessage_def split: json_field.splits prod.splits option.splits)

lemma onMessage_authenticated:
  assumes "authenticated conn"
  shows "authenticated (fst (snd (onMessage env ws now frame (st, conn))))"
  using assms
  by (cases frame)
     (auto simp: onMessage_def handleInit_def handleTyping_def handleUserMessage_def Let_def
        split: json_field.splits prod.splits option.splits bool.splits)

lemma runConnection_conn:
  "fst (snd (runConnection env ws sc (ev # evs))) =
     fst (snd (runConnection env ws
        (fst (connectionStep env ws sc ev), fst (snd (connectionStep env ws sc ev))) evs))"
  by (simp split: prod.splits)

lemma messages_keep_timer:
  assumes "\<forall>ev\<in>set evs. isMessageEvent ev"
  shows "authenticated (fst (snd (runConnection env ws (st, conn) evs)))
       \<or> fst (snd (runConnection env ws (st, conn) evs)) = conn"
  using assms
proof (induction evs arbitrary: st conn)
  case Nil
  show ?case by simp
next
  case (Cons ev evs)
  from Cons.prems obtain now frame where ev: "ev = MessageEvent now frame"
    by (cases ev) auto
  obtain st1 conn1 acts1 where step: "onMessage env ws now frame (st, conn) = (st1, conn1, acts1)"
    by (cases "onMessage env ws now frame (st, conn)")
  from Cons.prems have rest: "\<forall>ev\<in>set evs. isMessageEvent ev" by simp
  have run: "fst (snd (runConnection env ws (st, conn) (ev # evs)))
           = fst (snd (runConnection env ws (st1, conn1) evs))"
    unfolding runConnection_conn by (simp add: ev step)
  have later: "authenticated conn1 \<Longrightarrow> authenticated (fst (snd (runConnection env ws (st1, conn1) evs)))"
    using rest
  proof (induction evs arbitrary: st1 conn1)
    case Nil
    then show ?case by simp
  next
    case (Cons e es)
    from Cons.prems obtain n f where e: "e = MessageEvent n f"
      by (cases e) auto
    obtain s2 c2 a2 where st: "onMessage env ws n f (st1, conn1) = (s2, c2, a2)"
      by (cases "onMessage env ws n f (st1, conn1)")
    from onMessage_authenticated [OF Cons.prems(1), of env ws n f st1] st have "authenticated c2"
      by simp
    from Cons.IH [OF this, of s2] Cons.prems(2) show ?case
      unfolding runConnection_conn by (simp add: e st)
  qed
  show ?case
  proof (cases "authenticated conn")
    case True
    from onMessage_authenticated [OF True, of env ws now frame st] step have "authenticated conn1"
      by simp
    from later [OF this] show ?thesis unfolding run by simp
  next
    case False
    from onMessage_unauthenticated [OF False, of env ws now frame st] step
    have "authenticated conn1 \<or> conn1 = conn" by simp
    then show ?thesis
    proof
      assume "authenticated conn1"
      from later [OF this] show ?thesis unfolding run by simp
    next
      assume "conn1 = conn"
      with Cons.IH [OF rest, of st1 conn] show ?thesis unfolding run by simp
    qed
  qed
qed

lemma reject_frame:
  assumes "\<not> authenticated conn"
    and "msgType msg \<noteq> JString ''auth'' \<or> \<not> isStringField (msgToken msg)
         \<or> (\<exists>token. msgToken msg = JString token
              \<and> fst (verifyToken env (tokenSessions st) token (requestOrigin conn) now) = None)"
  shows "snd (snd (onMessage env ws now (JsonValue msg) (st, conn))) = [WsClose ws 4001 ''Authentication required'']
       \<and> fst (snd (onMessage env ws now (JsonValue msg) (st, conn))) = conn"
  using assms
  by (cases "msgToken msg")
     (auto simp: onMessage_def closeAuthRequired_def split: prod.splits option.splits)

lemma ignored_frame:
  assumes "\<not> authenticated conn" and "frame = Unparseable \<or> frame = JsonNull"
  shows "onMessage env ws now frame (st, conn) = (st\<lparr>errorLog := errorLog st @ [WsError]\<rparr>, conn, [])"
  using assms by (auto simp: onMessage_def)

lemma timer_closes:
  assumes "\<not> authenticated conn" and "authTimeout conn = Some due" and "due \<le> now"
  shows "snd (snd (connectionStep env ws (st, conn) (TimerEvent now))) = [WsClose ws 4001 ''Authentication required'']"
  using assms by (simp add: onAuthTimeout_def closeAuthRequired_def)

subsection \<open>The visitor id of an init frame\<close>

text \<open>
  Claim C5.  On an authenticated socket with verified claims \<open>c\<close>, two \<open>init\<close> frames give
  the same result whatever else they carry, the client-supplied \<open>visitorId\<close> included: the
  visitor row of \<open>sub c\<close> is upserted from the claims, the socket is registered under
  \<open>sub c\<close> in the fanout map, the connection's visitor id becomes \<open>sub c\<close>, and the replies
  are \<open>init\<close> with \<open>sub c\<close> followed by the current presence.
\<close>

theorem init_ignores_client_visitor_id:
  assumes "authenticated conn" and "claims conn = Some c"
    and "msgType msg = JString ''init''" and "msgType msg' = JString ''init''"
  shows "onMessage env ws now (JsonValue msg) (st, conn) = onMessage env ws now (JsonValue msg') (st, conn)
       \<and> onMessage env ws now (JsonValue msg) (st, conn) =
           (registerSocket
              (st\<lparr>visitors := upsertVisitor (visitors st) (sub c) (orNull (name c))
                      (Some (siteFromClaims env c (SITE_NAME env))) (orNull (email c))
                      (authTypeFromClaims c) (now div 1000)\<rparr>)
              (sub c) ws,
            conn\<lparr>visitorId := Some (sub c)\<rparr>,
            [WsSend ws (InitFrame (sub c)),
             WsSend ws (PresenceFrame (getSupportPresenceState (presenceSetting st)) now)])
       \<and> (\<exists>sockets. clients (fst (onMessage env ws now (JsonValue msg) (st, conn))) (sub c) = Some sockets
             \<and> ws \<in> set sockets)"
proof -
  note r = init_result [OF assms(1,2,3), of env ws now st] init_result [OF assms(1,2,4), of env ws now st]
  have same: "onMessage env ws now (JsonValue msg) (st, conn) = onMessage env ws now (JsonValue msg') (st, conn)"
    by (simp only: r)
  have result: "onMessage env ws now (JsonValue msg) (st, conn) =
           (registerSocket
              (st\<lparr>visitors := upsertVisitor (visitors st) (sub c) (orNull (name c))
                      (Some (siteFromClaims env c (SITE_NAME env))) (orNull (email c))
                      (authTypeFromClaims c) (now div 1000)\<rparr>)
              (sub c) ws,
            conn\<lparr>visitorId := Some (sub c)\<rparr>,
            [WsSend ws (InitFrame (sub c)),
             WsSend ws (PresenceFrame (getSupportPresenceState (presenceSetting st)) now)])"
    by (simp add: r handleInit_def Let_def)
  have registered: "\<exists>sockets. clients (fst (onMessage env ws now (JsonValue msg) (st, conn))) (sub c) = Some sockets
             \<and> ws \<in> set sockets"
    unfolding result by (simp add: registerSocket_def Let_def)
  from same result registered show ?thesis by blast
qed

theorem init_ignores_client_visitor_id_witness:
  "authenticated aliceConn \<and> claims aliceConn = Some aliceClaims
   \<and> onMessage demoAuthEnv 1 5000 (JsonValue (initMsg (JString ''mallory''))) (emptyState, aliceConn)
       = onMessage demoAuthEnv 1 5000 (JsonValue (initMsg JAbsent)) (emptyState, aliceConn)
   \<and> fst (snd (onMessage demoAuthEnv 1 5000 (JsonValue (initMsg (JString ''mallory''))) (emptyState, aliceConn)))
       = aliceConn\<lparr>visitorId := Some ''alice''\<rparr>
   \<and> snd (snd (onMessage demoAuthEnv 1 5000 (JsonValue (initMsg (JString ''mallory''))) (emptyState, aliceConn)))
       = [WsSend 1 (InitFrame ''alice''), WsSend 1 (PresenceFrame online 5000)]
   \<and> map vid (visitors (fst (onMessage demoAuthEnv 1 5000 (JsonValue (initMsg (JString ''mallory'')))
         (emptyState, aliceConn)))) = [''alice'']"
proof -
  have h: "authenticated aliceConn" "claims aliceConn = Some aliceClaims"
    "msgType (initMsg (JString ''mallory'')) = JString ''init''" "msgType (initMsg JAbsent) = JString ''init''"
    by (simp_all add: aliceConn_def initMsg_def)
  note inst = init_ignores_client_visitor_id [OF h, of demoAuthEnv 1 5000 emptyState]
  have s: "sub aliceClaims = ''alice''"
    by (simp add: aliceClaims_def)
  have p: "getSupportPresenceState (presenceSetting emptyState) = online"
    by (simp add: getSupportPresenceState_def emptyState_def)
  have v: "map vid (visitors (registerSocket
              (emptyState\<lparr>visitors := upsertVisitor (visitors emptyState) (sub aliceClaims) (orNull (name aliceClaims))
                      (Some (siteFromClaims demoAuthEnv aliceClaims (SITE_NAME demoAuthEnv))) (orNull (email aliceClaims))
                      (authTypeFromClaims aliceClaims) (5000 div 1000)\<rparr>)
              (sub aliceClaims) 1)) = [''alice'']"
    by (simp add: registerSocket_def upsertVisitor_def getVisitor_def emptyState_def aliceClaims_def Let_def)
  note same = inst [THEN conjunct1]
  note result = inst [THEN conjunct2, THEN conjunct1]
  have c: "fst (snd (onMessage demoAuthEnv 1 5000 (JsonValue (initMsg (JString ''mallory''))) (emptyState, aliceConn)))
       = aliceConn\<lparr>visitorId := Some ''alice''\<rparr>"
    unfolding result by (simp add: s)
  have a: "snd (snd (onMessage demoAuthEnv 1 5000 (JsonValue (initMsg (JString ''mallory''))) (emptyState, aliceConn)))
       = [WsSend 1 (InitFrame ''alice''), WsSend 1 (PresenceFrame online 5000)]"
    unfolding result by (simp add: s p)
  have u: "map vid (visitors (fst (onMessage demoAuthEnv 1 5000 (JsonValue (initMsg (JString ''mallory'')))
         (emptyState, aliceConn)))) = [''alice'']"
    unfolding result by (simp only: fst_conv v)
  from h(1,2) same c a u show ?thesis by blast
qed

subsection \<open>Authentication required\<close>

text \<open>
  Claim C7, as amended.  On a socket that is not authenticated, a frame that parses to a
  JSON value other than \<open>null\<close> and is not an \<open>auth\<close> frame with a string token, or an \<open>auth\<close>
  frame whose token \<open>verifyToken\<close> rejects for the socket's request origin, closes the socket
  with code \<open>4001\<close> and leaves the connection unauthenticated.  A frame that does not parse,
  or is \<open>null\<close>, is logged and nothing else: the socket stays open and unauthenticated, its
  timer pending.  The timer is set for \<open>5000\<close> milliseconds after the opening; when its
  callback runs on a connection that received frames only and is still not authenticated,
  it closes the socket with code \<open>4001\<close>.
\<close>

theorem unauthenticated_socket_closed:
  "(\<not> authenticated conn
      \<and> (msgType msg \<noteq> JString ''auth'' \<or> \<not> isStringField (msgToken msg)
         \<or> (\<exists>token. msgToken msg = JString token
              \<and> fst (verifyToken env (tokenSessions st) token (requestOrigin conn) now) = None))
      \<longrightarrow> snd (snd (onMessage env ws now (JsonValue msg) (st, conn)))
            = [WsClose ws 4001 ''Authentication required'']
        \<and> fst (snd (onMessage env ws now (JsonValue msg) (st, conn))) = conn)
   \<and> (\<not> authenticated conn \<and> (frame = Unparseable \<or> frame = JsonNull)
      \<longrightarrow> onMessage env ws now frame (st, conn) = (st\<lparr>errorLog := errorLog st @ [WsError]\<rparr>, conn, []))
   \<and> (let after = runConnection env ws (st0, openConnection originHeader ip opened) evs
      in (\<forall>ev\<in>set evs. isMessageEvent ev) \<and> \<not> authenticated (fst (snd after))
         \<and> opened + AUTH_TIMEOUT_MS \<le> due
         \<longrightarrow> snd (snd (connectionStep env ws (fst after, fst (snd after)) (TimerEvent due)))
               = [WsClose ws 4001 ''Authentication required''])
   \<and> AUTH_TIMEOUT_MS = 5000"
proof (intro conjI impI)
  assume "\<not> authenticated conn
      \<and> (msgType msg \<noteq> JString ''auth'' \<or> \<not> isStringField (msgToken msg)
         \<or> (\<exists>token. msgToken msg = JString token
              \<and> fst (verifyToken env (tokenSessions st) token (requestOrigin conn) now) = None))"
  then have r: "snd (snd (onMessage env ws now (JsonValue msg) (st, conn)))
            = [WsClose ws 4001 ''Authentication required'']
        \<and> fst (snd (onMessage env ws now (JsonValue msg) (st, conn))) = conn"
    by (intro reject_frame) simp_all
  from r show "snd (snd (onMessage env ws now (JsonValue msg) (st, conn)))
            = [WsClose ws 4001 ''Authentication required'']" ..
  from r show "fst (snd (onMessage env ws now (JsonValue msg) (st, conn))) = conn" ..
next
  assume "\<not> authenticated conn \<and> (frame = Unparseable \<or> frame = JsonNull)"
  then show "onMessage env ws now frame (st, conn) = (st\<lparr>errorLog := errorLog st @ [WsError]\<rparr>, conn, [])"
    by (intro ignored_frame) simp_all
next
  show "let after = runConnection env ws (st0, openConnection originHeader ip opened) evs
      in (\<forall>ev\<in>set evs. isMessageEvent ev) \<and> \<not> authenticated (fst (snd after))
         \<and> opened + AUTH_TIMEOUT_MS \<le> due
         \<longrightarrow> snd (snd (connectionStep env ws (fst after, fst (snd after)) (TimerEvent due)))
               = [WsClose ws 4001 ''Authentication required'']"
    unfolding Let_def
  proof
    let ?conn0 = "openConnection originHeader ip opened"
    let ?after = "runConnection env ws (st0, ?conn0) evs"
    assume a: "(\<forall>ev\<in>set evs. isMessageEvent ev) \<and> \<not> authenticated (fst (snd ?after))
         \<and> opened + AUTH_TIMEOUT_MS \<le> due"
    with messages_keep_timer [of evs env ws st0 ?conn0] have same: "fst (snd ?after) = ?conn0"
      by blast
    have t: "authTimeout ?conn0 = Some (opened + AUTH_TIMEOUT_MS)"
      by (simp add: openConnection_def)
    from a same have n: "\<not> authenticated ?conn0" by simp
    from a have d: "opened + AUTH_TIMEOUT_MS \<le> due" by simp
    show "snd (snd (connectionStep env ws (fst ?after, fst (snd ?after)) (TimerEvent due)))
               = [WsClose ws 4001 ''Authentication required'']"
      unfolding same by (rule timer_closes [OF n t d])
  qed
next
  show "AUTH_TIMEOUT_MS = 5000" by (simp add: AUTH_TIMEOUT_MS_def)
qed

theorem unauthenticated_socket_closed_witness:
  "\<not> authenticated (openConnection ''https://a.example'' ''10.0.0.1'' 0)
   \<and> msgType (initMsg JAbsent) \<noteq> JString ''auth''
   \<and> snd (snd (onMessage demoAuthEnv 7 1000 (JsonValue (initMsg JAbsent))
         (emptyState, openConnection ''https://a.example'' ''10.0.0.1'' 0)))
       = [WsClose 7 4001 ''Authentication required'']
   \<and> snd (snd (connectionStep demoAuthEnv 7
         (fst (runConnection demoAuthEnv 7 (emptyState, openConnection ''https://a.example'' ''10.0.0.1'' 0)
                 [MessageEvent 100 Unparseable]),
          fst (snd (runConnection demoAuthEnv 7 (emptyState, openConnection ''https://a.example'' ''10.0.0.1'' 0)
                 [MessageEvent 100 Unparseable])))
         (TimerEvent 5000)))
       = [WsClose 7 4001 ''Authentication required'']"
proof -
  let ?conn = "openConnection ''https://a.example'' ''10.0.0.1'' 0"
  let ?evs = "[MessageEvent 100 Unparseable]"
  have h1: "\<not> authenticated ?conn" and h2: "msgType (initMsg JAbsent) \<noteq> JString ''auth''"
    by (simp_all add: openConnection_def initMsg_def)
  note inst = unauthenticated_socket_closed
    [of ?conn "initMsg JAbsent" demoAuthEnv emptyState 1000 7 Unparseable emptyState "''https://a.example''"
        "''10.0.0.1''" 0 ?evs 5000]
  from inst [THEN conjunct1] h1 h2 have close:
    "snd (snd (onMessage demoAuthEnv 7 1000 (JsonValue (initMsg JAbsent)) (emptyState, ?conn)))
       = [WsClose 7 4001 ''Authentication required'']"
    by blast
  have run: "runConnection demoAuthEnv 7 (emptyState, ?conn) ?evs
      = (emptyState\<lparr>errorLog := errorLog emptyState @ [WsError]\<rparr>, ?conn, [])"
    by (simp add: onMessage_def)
  have pre: "(\<forall>ev\<in>set ?evs. isMessageEvent ev)
      \<and> \<not> authenticated (fst (snd (runConnection demoAuthEnv 7 (emptyState, ?conn) ?evs)))
      \<and> 0 + AUTH_TIMEOUT_MS \<le> 5000"
    using h1 unfolding run by (simp add: AUTH_TIMEOUT_MS_def)
  from inst [THEN conjunct2, THEN conjunct2, THEN conjunct1, unfolded Let_def, THEN mp, OF pre]
  have timer: "snd (snd (connectionStep demoAuthEnv 7
         (fst (runConnection demoAuthEnv 7 (emptyState, ?conn) ?evs),
          fst (snd (runConnection demoAuthEnv 7 (emptyState, ?conn) ?evs)))
         (TimerEvent 5000)))
       = [WsClose 7 4001 ''Authentication required'']" .
  from h1 h2 close timer show ?thesis by blast
qed

text \<open>
  The claim as the specification words it has every frame that is not a good \<open>auth\<close> frame
  close the socket.  A frame that is not JSON, sent on a fresh socket, closes nothing and
  leaves the connection as it was.
\<close>

theorem unauthenticated_socket_closed_counterexample:
  "\<not> authenticated (openConnection ''https://a.example'' ''10.0.0.1'' 0)
   \<and> snd (snd (onMessage demoAuthEnv 1 1000 Unparseable
         (emptyState, openConnection ''https://a.example'' ''10.0.0.1'' 0))) = []
   \<and> fst (snd (onMessage demoAuthEnv 1 1000 Unparseable
         (emptyState, openConnection ''https://a.example'' ''10.0.0.1'' 0)))
       = openConnection ''https://a.example'' ''10.0.0.1'' 0"
  by (simp add: onMessage_def openConnection_def)

end
